theory Spec2Isabelle
  imports Main "HOL-Library.Sublist"
begin

chapter \<open>The model\<close>

section \<open>JavaScript strings\<close>

text \<open>
  A JavaScript string is a sequence of UTF-16 code units. The model keeps a string as the
  list of its code units (natural numbers), so that the letters outside ASCII that the
  scraper's keyword table uses (a-umlaut is 228, o-umlaut is 246) are ordinary elements.
  \<open>js\<close> turns an ASCII literal into its code units.
\<close>

type_synonym jsstring = "nat list"

definition js :: "string \<Rightarrow> jsstring" where
  "js s = map of_char s"

text \<open>\<open>String.prototype.includes\<close>: the pattern starts at some position of the string.\<close>

fun js_includes :: "jsstring \<Rightarrow> jsstring \<Rightarrow> bool" where
  "js_includes [] p = (p = [])"
| "js_includes (c # cs) p = (prefix p (c # cs) \<or> js_includes cs p)"

text \<open>\<open>String.prototype.startsWith\<close>, \<open>endsWith\<close> and \<open>substring(1)\<close>.\<close>

definition startsWith :: "jsstring \<Rightarrow> jsstring \<Rightarrow> bool" where
  "startsWith s p = prefix p s"

definition endsWith :: "jsstring \<Rightarrow> jsstring \<Rightarrow> bool" where
  "endsWith s p = suffix p s"

definition substring1 :: "jsstring \<Rightarrow> jsstring" where
  "substring1 s = drop 1 s"

text \<open>
  The class \<open>\d\<close> of a regular expression without the unicode flag is the ASCII digits;
  \<open>\s\<close> is the white space and line terminators of ECMAScript, which are also what
  \<open>String.prototype.trim\<close> removes at both ends.
\<close>

definition isDigit :: "nat \<Rightarrow> bool" where
  "isDigit c = (48 \<le> c \<and> c \<le> 57)"

definition isSpace :: "nat \<Rightarrow> bool" where
  "isSpace c = (c \<in> {9, 10, 11, 12, 13, 32, 160, 5760, 8232, 8233, 8239, 8287, 12288, 65279}
                 \<or> (8192 \<le> c \<and> c \<le> 8202))"

definition trim :: "jsstring \<Rightarrow> jsstring" where
  "trim s = rev (dropWhile isSpace (rev (dropWhile isSpace s)))"

text \<open>\<open>Array.prototype.join\<close> on an array of strings.\<close>

fun join :: "jsstring \<Rightarrow> jsstring list \<Rightarrow> jsstring" where
  "join sep [] = []"
| "join sep [x] = x"
| "join sep (x # y # ys) = x @ sep @ join sep (y # ys)"

text \<open>
  \<open>x || d\<close> for an optional string: the default stands in for \<open>undefined\<close>, for \<open>null\<close>
  and for the empty string.
\<close>

definition orElse :: "jsstring option \<Rightarrow> jsstring \<Rightarrow> jsstring" where
  "orElse x d = (case x of None \<Rightarrow> d | Some s \<Rightarrow> if s = [] then d else s)"

text \<open>
  A non-negative integer in a template literal is written in decimal (the model is used
  for HTTP status codes, the retry budget and the index of a column only).
\<close>

function showNat :: "nat \<Rightarrow> jsstring" where
  "showNat n = (if n < 10 then [48 + n] else showNat (n div 10) @ [48 + n mod 10])"
  by pat_completeness auto
termination
  by (relation "measure (\<lambda>n. n)") auto

text \<open>
  \<open>String.prototype.toLowerCase\<close> is a built-in of the platform, defined by the Unicode
  tables; the functions below take it as the argument \<open>lc\<close>. \<open>toLowerCaseLatin1\<close> is its
  restriction to strings of Basic Latin and Latin-1 code units (A to Z and the capital
  letters 192 to 222 except the multiplication sign 215 move up by 32), used where a
  concrete text is evaluated.
\<close>

definition lowerUnit :: "nat \<Rightarrow> nat" where
  "lowerUnit c = (if (65 \<le> c \<and> c \<le> 90) \<or> (192 \<le> c \<and> c \<le> 222 \<and> c \<noteq> 215) then c + 32 else c)"

definition toLowerCaseLatin1 :: "jsstring \<Rightarrow> jsstring" where
  "toLowerCaseLatin1 s = map lowerUnit s"

section \<open>The record shapes (types/index.ts)\<close>

record Person =
  name :: jsstring
  title :: jsstring

text \<open>A \<open>Contact\<close> has the fields of a \<open>Person\<close> and the optional \<open>phone\<close> and \<open>email\<close>.\<close>

record Contact = Person +
  phone :: "jsstring option"
  email :: "jsstring option"

record ContactInfo =
  contacts :: "Contact list"
  phoneNumbers :: "jsstring list"
  emailAddresses :: "jsstring list"
  people :: "Person list"

record ScrapingResult =
  url :: jsstring
  success :: bool
  data :: "ContactInfo option"
  error :: "jsstring option"
  timestamp :: jsstring

section \<open>Phone numbers (scraper.ts, isValidPhoneNumber and normalizePhoneNumber)\<close>

text \<open>\<open>phone.replace(/[^\d+]/g, '')\<close>: every code unit that is neither a digit nor \<open>+\<close> goes.\<close>

definition stripPhone :: "jsstring \<Rightarrow> jsstring" where
  "stripPhone p = filter (\<lambda>c. isDigit c \<or> c = 43) p"

text \<open>\<open>[0-9]{8,9}$\<close>: the rest of the string is eight or nine digits.\<close>

definition digits8to9 :: "jsstring \<Rightarrow> bool" where
  "digits8to9 r = ((length r = 8 \<or> length r = 9) \<and> list_all isDigit r)"

text \<open>\<open>/^(\+358|0)[0-9]{8,9}$/\<close>\<close>

definition reCleanPhone :: "jsstring \<Rightarrow> bool" where
  "reCleanPhone s =
     ((prefix (js ''+358'') s \<and> digits8to9 (drop 4 s)) \<or>
      (prefix (js ''0'') s \<and> digits8to9 (drop 1 s)))"

text \<open>\<open>[0-9]{n}\<close>: exactly \<open>n\<close> digits are consumed; the result is what follows them.\<close>

fun takeDigits :: "nat \<Rightarrow> jsstring \<Rightarrow> jsstring option" where
  "takeDigits 0 s = Some s"
| "takeDigits (Suc n) [] = None"
| "takeDigits (Suc n) (c # cs) = (if isDigit c then takeDigits n cs else None)"

text \<open>\<open>\s?\<close>: the continuations the matcher tries, the greedy one first.\<close>

definition optSpace :: "jsstring \<Rightarrow> jsstring list" where
  "optSpace s = (case s of [] \<Rightarrow> [s] | c # cs \<Rightarrow> if isSpace c then [cs, s] else [s])"

text \<open>\<open>[0-9]{2}\s?[0-9]{3}\s?[0-9]{4}$\<close>\<close>

definition reSpacedTail :: "jsstring \<Rightarrow> bool" where
  "reSpacedTail s =
     (case takeDigits 2 s of
        None \<Rightarrow> False
      | Some s1 \<Rightarrow>
          list_ex (\<lambda>s2. case takeDigits 3 s2 of
                          None \<Rightarrow> False
                        | Some s3 \<Rightarrow> list_ex (\<lambda>s4. takeDigits 4 s4 = Some []) (optSpace s3))
                  (optSpace s1))"

text \<open>\<open>/^(\+358|0)[0-9]{2}\s?[0-9]{3}\s?[0-9]{4}$/\<close>\<close>

definition reSpacedPhone :: "jsstring \<Rightarrow> bool" where
  "reSpacedPhone s =
     ((prefix (js ''+358'') s \<and> reSpacedTail (drop 4 s)) \<or>
      (prefix (js ''0'') s \<and> reSpacedTail (drop 1 s)))"

definition isValidPhoneNumber :: "jsstring \<Rightarrow> bool" where
  "isValidPhoneNumber p =
     (let cleanPhone = stripPhone p
      in reCleanPhone cleanPhone \<or> reSpacedPhone p)"

definition normalizePhoneNumber :: "jsstring \<Rightarrow> jsstring" where
  "normalizePhoneNumber p =
     (let cleanPhone = stripPhone p
      in if startsWith cleanPhone (js ''+358'') then cleanPhone
         else if startsWith cleanPhone (js ''0'') then js ''+358'' @ substring1 cleanPhone
         else p)"

section \<open>Grouped contacts (scraper.ts, extractContactFromElement and removeDuplicateContacts)\<close>

text \<open>
  The regular expressions that are searched for inside a text (\<open>text.match(pattern)\<close>) are
  run by the platform's engine; the model names each pattern of the source and takes the
  engine as the argument \<open>rx\<close>, which gives the text of the first match (\<open>match[0]\<close>) or
  \<open>None\<close> for \<open>null\<close>. The names stand for the three entries of \<open>namePatterns\<close>, the four
  entries of \<open>phonePatterns\<close>, \<open>emailPattern\<close>, and the anchored \<open>emailRegex\<close> that
  \<open>isValidEmail\<close> tests.
\<close>

datatype pattern =
    NameFinnish
  | NameInternational
  | NameSimple
  | PhoneInternational
  | PhoneSpaced
  | PhoneDashed
  | PhoneDotted
  | EmailAnywhere
  | EmailWhole

type_synonym matcher = "pattern \<Rightarrow> jsstring \<Rightarrow> jsstring option"

definition namePatterns :: "pattern list" where
  "namePatterns = [NameFinnish, NameInternational, NameSimple]"

definition phonePatterns :: "pattern list" where
  "phonePatterns = [PhoneInternational, PhoneSpaced, PhoneDashed, PhoneDotted]"

definition titleKeywords :: "jsstring list" where
  "titleKeywords =
  [js ''toimitusjohtaja'', js ''tj'', js ''ceo'', js ''managing director'',
   js ''myyntip'' @ [228, 228] @ js ''llikk'' @ [246], js ''sales manager'', js ''myynti'',
   js ''markkinointip'' @ [228, 228] @ js ''llikk'' @ [246], js ''marketing manager'',
   js ''markkinointi'',
   js ''asiakaspalvelup'' @ [228, 228] @ js ''llikk'' @ [246], js ''customer service manager'',
   js ''henkil'' @ [246] @ js ''st'' @ [246] @ js ''p'' @ [228, 228] @ js ''llikk'' @ [246],
   js ''hr manager'', js ''henkil'' @ [246] @ js ''st'' @ [246],
   js ''talousp'' @ [228, 228] @ js ''llikk'' @ [246], js ''financial manager'', js ''talous'',
   js ''projektip'' @ [228, 228] @ js ''llikk'' @ [246], js ''project manager'', js ''projekti'',
   js ''tiimip'' @ [228, 228] @ js ''llikk'' @ [246], js ''team leader'', js ''tiimi'',
   js ''p'' @ [228, 228] @ js ''llikk'' @ [246], js ''manager'', js ''johtaja'', js ''director'',
   js ''asiantuntija'', js ''specialist'', js ''konsultti'', js ''consultant'',
   js ''kehitt'' @ [228] @ js ''j'' @ [228], js ''developer'', js ''suunnittelija'', js ''designer'',
   js ''avustaja'', js ''assistant'', js ''koordinaattori'', js ''coordinator'']"

text \<open>The loop over \<open>namePatterns\<close>: the first pattern that matches gives the trimmed name.\<close>

fun nameLoop :: "matcher \<Rightarrow> jsstring \<Rightarrow> pattern list \<Rightarrow> jsstring option" where
  "nameLoop rx text [] = None"
| "nameLoop rx text (p # ps) =
     (case rx p text of
        Some m \<Rightarrow> Some (trim m)
      | None \<Rightarrow> nameLoop rx text ps)"

text \<open>
  The loop over \<open>titleKeywords\<close>: \<open>title\<close> keeps its initial value unless a keyword is
  included in the lower-cased text, and the loop breaks at the first such keyword.
\<close>

fun titleLoop :: "(jsstring \<Rightarrow> jsstring) \<Rightarrow> jsstring \<Rightarrow> jsstring list \<Rightarrow> jsstring \<Rightarrow> jsstring" where
  "titleLoop lc text [] ttl = ttl"
| "titleLoop lc text (keyword # rest) ttl =
     (if js_includes (lc text) keyword then keyword else titleLoop lc text rest ttl)"

text \<open>
  The loop over \<open>phonePatterns\<close>: the first pattern whose first match is a valid phone
  number gives the normalised phone.
\<close>

fun phoneLoop :: "matcher \<Rightarrow> jsstring \<Rightarrow> pattern list \<Rightarrow> jsstring option" where
  "phoneLoop rx text [] = None"
| "phoneLoop rx text (p # ps) =
     (case rx p text of
        Some m \<Rightarrow> if isValidPhoneNumber m then Some (normalizePhoneNumber m) else phoneLoop rx text ps
      | None \<Rightarrow> phoneLoop rx text ps)"

definition isValidEmail :: "matcher \<Rightarrow> jsstring \<Rightarrow> bool" where
  "isValidEmail rx e = (rx EmailWhole e \<noteq> None)"

text \<open>\<open>text\<close> is \<open>$element.text()\<close>, the text of the region.\<close>

definition extractContactFromElement ::
  "(jsstring \<Rightarrow> jsstring) \<Rightarrow> matcher \<Rightarrow> jsstring \<Rightarrow> Contact option" where
  "extractContactFromElement lc rx text =
     (case nameLoop rx text namePatterns of
        None \<Rightarrow> None
      | Some nm \<Rightarrow>
          if nm = [] then None
          else Some \<lparr> name = nm,
                      title = titleLoop lc text titleKeywords (js ''Tuntematon''),
                      phone = phoneLoop rx text phonePatterns,
                      email = (case rx EmailAnywhere text of
                                 None \<Rightarrow> None
                               | Some m \<Rightarrow> if isValidEmail rx m then Some (lc m) else None) \<rparr>)"

text \<open>
  \<open>removeDuplicateContacts\<close>: the \<open>forEach\<close> appends a contact to \<open>uniqueContacts\<close> unless
  some contact already there has the same lower-cased name; the result is
  \<open>uniqueContacts.slice(0, 10)\<close>.
\<close>

fun uniqueLoop :: "(jsstring \<Rightarrow> jsstring) \<Rightarrow> Contact list \<Rightarrow> Contact list \<Rightarrow> Contact list" where
  "uniqueLoop lc [] uniqueContacts = uniqueContacts"
| "uniqueLoop lc (contact # rest) uniqueContacts =
     (let isDuplicate = list_ex (\<lambda>existing. lc (name existing) = lc (name contact)) uniqueContacts
      in uniqueLoop lc rest (if \<not> isDuplicate then uniqueContacts @ [contact] else uniqueContacts))"

definition removeDuplicateContacts :: "(jsstring \<Rightarrow> jsstring) \<Rightarrow> Contact list \<Rightarrow> Contact list" where
  "removeDuplicateContacts lc cs = take 10 (uniqueLoop lc cs [])"

section \<open>The retry loop (scraper.ts, scrapeContactInfo)\<close>

text \<open>
  What a \<open>catch\<close> receives: an \<open>Error\<close> with its message, or a value that is not an
  \<open>Error\<close>.
\<close>

datatype thrown = Error (message: jsstring) | NonError

datatype 'h response = Response (status: nat) (statusText: jsstring) (rdata: 'h)

text \<open>
  The world outside the scraper, for one call of \<open>scrapeContactInfo\<close>: whether
  \<open>new URL(url)\<close> succeeds, what each of the three axios requests gives for the URL (a
  response, or the error axios rejects with: a timeout, a network failure, a status of
  500 or more), and what loading the page and running the four extractors gives (a
  \<open>ContactInfo\<close>, or what they throw).
\<close>

record 'h web =
  isValidUrl :: "jsstring \<Rightarrow> bool"
  fetchWithFullHeaders :: "jsstring \<Rightarrow> thrown + 'h response"
  fetchWithMinimalHeaders :: "jsstring \<Rightarrow> thrown + 'h response"
  fetchSimple :: "jsstring \<Rightarrow> thrown + 'h response"
  extractAll :: "'h \<Rightarrow> thrown + ContactInfo"

definition maxRetries :: nat where
  "maxRetries = 3"

definition nonRetryablePatterns :: "jsstring list" where
  "nonRetryablePatterns =
     [js ''Invalid URL'', js ''404'', js ''403'', js ''401'', js ''400'', js ''ENOTFOUND'',
      js ''ECONNREFUSED'']"

definition isNonRetryableError :: "jsstring \<Rightarrow> bool" where
  "isNonRetryableError msg = list_ex (\<lambda>pat. js_includes msg pat) nonRetryablePatterns"

text \<open>The request of an attempt: the first, the second and the later ones differ.\<close>

definition sendRequest :: "'h web \<Rightarrow> nat \<Rightarrow> jsstring \<Rightarrow> thrown + 'h response" where
  "sendRequest w attempt u =
     (if attempt = 1 then fetchWithFullHeaders w u
      else if attempt = 2 then fetchWithMinimalHeaders w u
      else fetchSimple w u)"

text \<open>
  The body of the \<open>try\<close> for one attempt: its result or what it throws, and whether a
  request was sent.
\<close>

definition tryAttempt :: "'h web \<Rightarrow> jsstring \<Rightarrow> nat \<Rightarrow> (thrown + ContactInfo) \<times> bool" where
  "tryAttempt w u attempt =
     (if \<not> isValidUrl w u then (Inl (Error (js ''Invalid URL provided'')), False)
      else
        (case sendRequest w attempt u of
           Inl e \<Rightarrow> (Inl e, True)
         | Inr resp \<Rightarrow>
             if status resp \<ge> 400
             then (Inl (Error (js ''HTTP '' @ showNat (status resp) @ js '': '' @ statusText resp)), True)
             else (extractAll w (rdata resp), True)))"

text \<open>
  The message of \<open>lastError\<close> in the \<open>catch\<close>: the error's own, or that of
  \<open>new Error('Unknown error')\<close> when what was thrown is not an \<open>Error\<close>.
\<close>

definition lastErrorMessage :: "thrown \<Rightarrow> jsstring" where
  "lastErrorMessage e = (case e of Error m \<Rightarrow> m | NonError \<Rightarrow> js ''Unknown error'')"

text \<open>
  How the \<open>for\<close> loop ends: with the \<open>return\<close> of an attempt, or past the loop (by
  \<open>break\<close> or because the attempts are used up), where \<open>lastError\<close> is the message of
  the last error, if any. Both carry the number of attempts made and the attempts that
  sent a request.
\<close>

datatype loopEnd =
    Returned (returned: ContactInfo) (attemptsOf: nat) (requestsOf: "nat list")
  | PastLoop (lastErrorOf: "jsstring option") (attemptsOf: nat) (requestsOf: "nat list")

function scrapeLoop ::
  "'h web \<Rightarrow> jsstring \<Rightarrow> nat \<Rightarrow> jsstring option \<Rightarrow> nat list \<Rightarrow> loopEnd" where
  "scrapeLoop w u attempt lastError sent =
     (if attempt \<le> maxRetries then
        (case tryAttempt w u attempt of
           (Inr info, f) \<Rightarrow> Returned info attempt (if f then sent @ [attempt] else sent)
         | (Inl e, f) \<Rightarrow>
             (let msg = lastErrorMessage e;
                  sent' = (if f then sent @ [attempt] else sent)
              in if isNonRetryableError msg then PastLoop (Some msg) attempt sent'
                 else scrapeLoop w u (attempt + 1) (Some msg) sent'))
      else PastLoop lastError (attempt - 1) sent)"
  by pat_completeness auto
termination
  by (relation "measure (\<lambda>(w, u, attempt, lastError, sent). Suc maxRetries - attempt)") auto

text \<open>One call of \<open>scrapeContactInfo\<close>: what it returns or throws, and what it did.\<close>

record scrapeRun =
  outcome :: "thrown + ContactInfo"
  attemptsMade :: nat
  requestsSent :: "nat list"

definition scrapeContactInfo :: "'h web \<Rightarrow> jsstring \<Rightarrow> scrapeRun" where
  "scrapeContactInfo w u =
     (case scrapeLoop w u 1 None [] of
        Returned info n sent \<Rightarrow> \<lparr> outcome = Inr info, attemptsMade = n, requestsSent = sent \<rparr>
      | PastLoop lastError n sent \<Rightarrow>
          \<lparr> outcome = Inl (Error (js ''Failed to scrape '' @ u @ js '' after '' @ showNat maxRetries
                              @ js '' attempts: '' @ orElse lastError (js ''Unknown error''))),
            attemptsMade = n, requestsSent = sent \<rparr>)"

subsection \<open>A failed attempt, in the words of the specification\<close>

text \<open>
  \<open>failureOf\<close> is the message that the \<open>catch\<close> of an attempt sees, if the attempt fails.
\<close>

definition failureOf :: "'h web \<Rightarrow> jsstring \<Rightarrow> nat \<Rightarrow> jsstring option" where
  "failureOf w u attempt =
     (case fst (tryAttempt w u attempt) of Inl e \<Rightarrow> Some (lastErrorMessage e) | Inr info \<Rightarrow> None)"

text \<open>
  The conditions that the specification lists as not retryable: the URL is invalid, or
  the request of the attempt is answered with status 400, 401, 403 or 404, or it fails
  with a DNS error (\<open>ENOTFOUND\<close>) or a refused connection (\<open>ECONNREFUSED\<close>), which Node
  names in the message of the error.
\<close>

definition nonRetryableCondition :: "'h web \<Rightarrow> jsstring \<Rightarrow> nat \<Rightarrow> bool" where
  "nonRetryableCondition w u attempt =
     (\<not> isValidUrl w u \<or>
      (case sendRequest w attempt u of
         Inr resp \<Rightarrow> status resp \<in> {400, 401, 403, 404}
       | Inl e \<Rightarrow> js_includes (lastErrorMessage e) (js ''ENOTFOUND'') \<or>
                  js_includes (lastErrorMessage e) (js ''ECONNREFUSED'')))"

text \<open>The attempt fails, and the message of its error includes none of the patterns.\<close>

definition failsRetryably :: "'h web \<Rightarrow> jsstring \<Rightarrow> nat \<Rightarrow> bool" where
  "failsRetryably w u attempt =
     (case failureOf w u attempt of Some m \<Rightarrow> \<not> isNonRetryableError m | None \<Rightarrow> False)"

section \<open>The batch endpoint (app/api/scrape/route.ts, PUT)\<close>

text \<open>
  The request: \<open>request.json()\<close> (or the destructuring of its result) throws, or it gives
  a body whose \<open>urls\<close> field is falsy (missing, \<open>null\<close>, ...), a value that is not an
  array, or an array of strings.
\<close>

datatype urlsField = Falsy | NotAnArray | UrlArray "jsstring list"

datatype batchRequest = InvalidJson | Body urlsField

datatype payload =
    ErrorBody jsstring
  | ResultsBody "ScrapingResult list"
  | UrlsBody "jsstring list" nat

datatype nextResponse = NextResponse (httpStatus: nat) (json: payload)

definition concurrencyLimit :: nat where
  "concurrencyLimit = 5"

text \<open>\<open>Array.prototype.slice(b, e)\<close> for \<open>0 \<le> b \<le> e\<close>; an end past the array is cut.\<close>

definition slice :: "nat \<Rightarrow> nat \<Rightarrow> 'a list \<Rightarrow> 'a list" where
  "slice b e xs = take (e - b) (drop b xs)"

text \<open>The first \<open>for\<close> loop, which pushes the chunks.\<close>

function chunkLoop :: "nat \<Rightarrow> jsstring list \<Rightarrow> jsstring list list \<Rightarrow> jsstring list list" where
  "chunkLoop i urls chunks =
     (if i < length urls
      then chunkLoop (i + concurrencyLimit) urls (chunks @ [slice i (i + concurrencyLimit) urls])
      else chunks)"
  by pat_completeness auto
termination
  by (relation "measure (\<lambda>(i, urls, chunks). length urls - i)") (auto simp: concurrencyLimit_def)

text \<open>
  The callback of \<open>chunk.map\<close> for the URL at position \<open>i\<close> of the batch. \<open>webAt i\<close> is the
  world as that call of \<open>scrapeContactInfo\<close> meets it and \<open>now i\<close> the time it ends at.
  Whatever \<open>scrapeContactInfo\<close> throws is caught here.
\<close>

definition chunkTask :: "(nat \<Rightarrow> 'h web) \<Rightarrow> (nat \<Rightarrow> jsstring) \<Rightarrow> nat \<Rightarrow> jsstring \<Rightarrow> ScrapingResult" where
  "chunkTask webAt now i u =
     (case outcome (scrapeContactInfo (webAt i) u) of
        Inr d \<Rightarrow> \<lparr> url = u, success = True, data = Some d, error = None, timestamp = now i \<rparr>
      | Inl e \<Rightarrow> \<lparr> url = u, success = False, data = None,
                   error = Some (case e of Error m \<Rightarrow> m | NonError \<Rightarrow> js ''Unknown error''),
                   timestamp = now i \<rparr>)"

text \<open>
  What is known of the requests of that task: its URL, and the attempts of its call of
  \<open>scrapeContactInfo\<close> that sent a request, in the order of that call.
\<close>

definition chunkTaskRequests :: "(nat \<Rightarrow> 'h web) \<Rightarrow> nat \<Rightarrow> jsstring \<Rightarrow> jsstring \<times> nat list" where
  "chunkTaskRequests webAt i u = (u, requestsSent (scrapeContactInfo (webAt i) u))"

text \<open>
  The second \<open>for\<close> loop: the tasks of a chunk run together, \<open>Promise.all\<close> gives their
  results in the order of the chunk, and they are pushed before the next chunk starts.
  \<open>i\<close> is the batch position of the chunk's first URL. The log has one entry per chunk,
  in the order in which the chunks run, and in it one entry per task of the chunk. The
  requests of different tasks of one chunk interleave in time, and the log says nothing
  about their order: it only keeps what each task sent.
\<close>

fun chunksLoop ::
  "(nat \<Rightarrow> 'h web) \<Rightarrow> (nat \<Rightarrow> jsstring) \<Rightarrow> jsstring list list \<Rightarrow> nat \<Rightarrow>
   ScrapingResult list \<Rightarrow> (jsstring \<times> nat list) list list \<Rightarrow>
   ScrapingResult list \<times> (jsstring \<times> nat list) list list" where
  "chunksLoop webAt now [] i results logs = (results, logs)"
| "chunksLoop webAt now (chunk # rest) i results logs =
     (let tasks = zip [i ..< i + length chunk] chunk;
          chunkResults = map (\<lambda>(k, u). chunkTask webAt now k u) tasks
      in chunksLoop webAt now rest (i + length chunk) (results @ chunkResults)
           (logs @ [map (\<lambda>(k, u). chunkTaskRequests webAt k u) tasks]))"

text \<open>The endpoint: its response, and the log of the requests sent while it ran.\<close>

definition PUT ::
  "(nat \<Rightarrow> 'h web) \<Rightarrow> (nat \<Rightarrow> jsstring) \<Rightarrow> batchRequest \<Rightarrow>
   nextResponse \<times> (jsstring \<times> nat list) list list" where
  "PUT webAt now req =
     (case req of
        InvalidJson \<Rightarrow> (NextResponse 500 (ErrorBody (js ''Batch scraping failed'')), [])
      | Body Falsy \<Rightarrow> (NextResponse 400 (ErrorBody (js ''URLs array is required'')), [])
      | Body NotAnArray \<Rightarrow> (NextResponse 400 (ErrorBody (js ''URLs array is required'')), [])
      | Body (UrlArray urls) \<Rightarrow>
          if length urls > 50
          then (NextResponse 400 (ErrorBody (js ''Maximum 50 URLs allowed per batch'')), [])
          else (case chunksLoop webAt now (chunkLoop 0 urls []) 0 [] [] of
                  (results, logs) \<Rightarrow> (NextResponse 200 (ResultsBody results), logs)))"

section \<open>CSV export and import (utils/csvUtils.ts)\<close>

definition escapeCSVValue :: "jsstring \<Rightarrow> jsstring" where
  "escapeCSVValue v =
     (if 44 \<in> set v \<or> 34 \<in> set v \<or> 10 \<in> set v
      then [34] @ concat (map (\<lambda>c. if c = 34 then [34, 34] else [c]) v) @ [34]
      else v)"

definition headers :: "jsstring list" where
  "headers = [js ''URL'', js ''Name'', js ''Title'', js ''Phone'', js ''Email'', js ''Error'']"

text \<open>The rows that the \<open>forEach\<close> of \<open>createCSVFromResults\<close> pushes for one result.\<close>

definition resultRows :: "ScrapingResult \<Rightarrow> jsstring list list" where
  "resultRows r =
     (case (if success r then data r else None) of
        Some d \<Rightarrow>
          if length (contacts d) > 0
          then map (\<lambda>c. [url r, name c, title c, orElse (phone c) [], orElse (email c) [], []])
                   (contacts d)
          else [[url r,
                 join (js ''; '') (map name (people d)),
                 join (js ''; '') (map title (people d)),
                 join (js ''; '') (phoneNumbers d),
                 join (js ''; '') (emailAddresses d),
                 []]]
      | None \<Rightarrow> [[url r, [], [], [], [], orElse (error r) (js ''Unknown error'')]])"

definition createCSVFromResults :: "ScrapingResult list \<Rightarrow> jsstring" where
  "createCSVFromResults results =
     (let rows = concat (map resultRows results);
          escapedRows = map (map escapeCSVValue) rows
      in join [10] (join [44] headers # map (join [44]) escapedRows))"

text \<open>
  \<open>parseCSVUrls\<close> pipes the document through \<open>csv()\<close> of the csv-parser package, a
  dependency that is not part of the repository. The definitions below follow the
  package (its version 3) with the options that \<open>csv()\<close> leaves at their defaults: the
  separator is the comma, the quote and the escape are the double quote, the line end is
  detected, the first line names the columns. \<open>Readable.from([csvContent])\<close> hands the
  document over as one chunk.

  The package works on the UTF-8 bytes of the chunk (\<open>Buffer.from\<close>) and decodes every
  cell again (\<open>toString('utf-8')\<close>). The encoder writes a surrogate without its partner as
  the replacement character U+FFFD and changes nothing else; the bytes that the parser
  looks for are ASCII and no byte of a longer sequence is, so cells are cut between
  characters and decoding gives back their code units. On code units the passage through
  the bytes is therefore \<open>toWellFormed\<close>, applied to the whole document.
\<close>

definition isHighSurrogate :: "nat \<Rightarrow> bool" where
  "isHighSurrogate c = (55296 \<le> c \<and> c \<le> 56319)"

definition isLowSurrogate :: "nat \<Rightarrow> bool" where
  "isLowSurrogate c = (56320 \<le> c \<and> c \<le> 57343)"

fun toWellFormed :: "jsstring \<Rightarrow> jsstring" where
  "toWellFormed [] = []"
| "toWellFormed [c] = (if isHighSurrogate c \<or> isLowSurrogate c then [65533] else [c])"
| "toWellFormed (c # d # cs) =
     (if isHighSurrogate c \<and> isLowSurrogate d then c # d # toWellFormed cs
      else if isHighSurrogate c \<or> isLowSurrogate c then 65533 # toWellFormed (d # cs)
      else c # toWellFormed (d # cs))"

text \<open>
  The loop of \<open>_transform\<close> cuts the chunk into lines, and \<open>_flush\<close> adds what follows the
  last line end. The arguments after the rest of the chunk are: whether the loop is at
  the first byte of the chunk (\<open>i === start\<close>), \<open>state.quoted\<close>, \<open>state.escaped\<close>,
  \<open>state.first\<close> (no line has been parsed yet), \<open>options.newline\<close>, the bytes before
  \<open>state.previousEnd\<close> and the bytes since. A line is given without its line end,
  together with the bytes of the chunk before it, at which \<open>parseLine\<close> looks. While
  the first line is read, a line feed makes the line feed the line end, and a carriage
  return that no line feed follows makes the carriage return the line end.
\<close>

fun splitLines ::
  "jsstring \<Rightarrow> bool \<Rightarrow> bool \<Rightarrow> bool \<Rightarrow> bool \<Rightarrow> nat \<Rightarrow> jsstring \<Rightarrow> jsstring \<Rightarrow>
   (jsstring \<times> jsstring) list" where
  "splitLines [] atStart quoted escaped first newline consumed line =
     (if escaped \<or> line = [] then [] else [(consumed, line)])"
| "splitLines (chr # rest) atStart quoted escaped first newline consumed line =
     (let nextChr = (case rest of [] \<Rightarrow> None | d # ds \<Rightarrow> Some d)
      in if \<not> escaped \<and> chr = 34 \<and> nextChr = Some 34 \<and> \<not> atStart
         then splitLines rest False quoted True first newline consumed (line @ [chr])
         else if chr = 34
         then splitLines rest False (if escaped then quoted else \<not> quoted) False first newline
                consumed (line @ [chr])
         else if quoted
         then splitLines rest False quoted escaped first newline consumed (line @ [chr])
         else (let detected = (if first
                               then (if chr = 10 then 10
                                     else if chr = 13 \<and> nextChr \<noteq> Some 10 then 13
                                     else newline)
                               else newline)
               in if chr = detected
                  then (consumed, line) #
                       splitLines rest False quoted escaped False detected (consumed @ line @ [chr]) []
                  else splitLines rest False quoted escaped first detected consumed (line @ [chr])))"

text \<open>
  \<open>parseCell\<close>: a cell that begins and ends with a quote loses both, and then every
  quote that a quote follows is skipped.
\<close>

fun unescapeCell :: "jsstring \<Rightarrow> jsstring" where
  "unescapeCell [] = []"
| "unescapeCell [c] = [c]"
| "unescapeCell (c # d # cs) =
     (if c = 34 \<and> d = 34 then d # unescapeCell cs else c # unescapeCell (d # cs))"

definition parseCell :: "jsstring \<Rightarrow> jsstring" where
  "parseCell cell =
     unescapeCell (if cell \<noteq> [] \<and> hd cell = 34 \<and> last cell = 34 then butlast (tl cell) else cell)"

text \<open>
  The loop of \<open>parseLine\<close> over a line: \<open>isQuoted\<close>, the bytes since \<open>offset\<close> and the
  cells pushed so far. A quote outside quotes opens a quoted stretch; inside, a quote
  closes the stretch only when a comma follows it, and a quote that a quote follows is
  passed over together with that quote. After the loop the bytes since \<open>offset\<close>, when
  there are any, are the last cell.
\<close>

function lineCells :: "jsstring \<Rightarrow> bool \<Rightarrow> jsstring \<Rightarrow> jsstring list \<Rightarrow> jsstring list" where
  "lineCells [] isQuoted cell cells = (if cell \<noteq> [] then cells @ [parseCell cell] else cells)"
| "lineCells (c # rest) isQuoted cell cells =
     (let next = (case rest of [] \<Rightarrow> None | d # ds \<Rightarrow> Some d);
          isStartingQuote = (\<not> isQuoted \<and> c = 34);
          isEndingQuote = (isQuoted \<and> c = 34 \<and> next = Some 44);
          isEscape = (isQuoted \<and> c = 34 \<and> next = Some 34)
      in if isStartingQuote \<or> isEndingQuote then lineCells rest (\<not> isQuoted) (cell @ [c]) cells
         else if isEscape then lineCells (tl rest) isQuoted (cell @ [c, 34]) cells
         else if c = 44 \<and> \<not> isQuoted then lineCells rest isQuoted [] (cells @ [parseCell cell])
         else lineCells rest isQuoted (cell @ [c]) cells)"
  by pat_completeness auto
termination
  by (relation "measure (\<lambda>(s, isQuoted, cell, cells). length s)") auto

text \<open>
  \<open>parseLine\<close> on a line and the bytes before it: when the byte before the line end is
  a carriage return the line is taken to end before it, the loop runs from the start of
  the line, and one more, empty, cell is pushed when the byte before that end is a
  comma. Both bytes are looked up in the chunk, so that for an empty line they are
  bytes before the line.
\<close>

definition parseLine :: "jsstring \<Rightarrow> jsstring \<Rightarrow> jsstring list" where
  "parseLine consumed line =
     (let buffer = consumed @ line;
          kept = (if buffer \<noteq> [] \<and> last buffer = 13 then butlast buffer else buffer);
          cells = lineCells (drop (length consumed) kept) False [] []
      in if kept \<noteq> [] \<and> last kept = 44 then cells @ [[]] else cells)"

text \<open>
  \<open>writeRow\<close> builds the row as an object: cell \<open>index\<close> is assigned to the property named
  by \<open>headers[index]\<close>, or by \<open>_\<close> and the index where the header line has no such cell.
  An object is kept as its own properties in the order of their creation; assigning to
  a property that exists changes its value in place; and assigning a string to
  \<open>__proto__\<close> creates no property.
\<close>

type_synonym jsobject = "(jsstring \<times> jsstring) list"

fun assign :: "jsobject \<Rightarrow> jsstring \<Rightarrow> jsstring \<Rightarrow> jsobject" where
  "assign [] k v = [(k, v)]"
| "assign ((k', v') # ps) k v = (if k' = k then (k, v) # ps else (k', v') # assign ps k v)"

definition setProperty :: "jsobject \<Rightarrow> jsstring \<Rightarrow> jsstring \<Rightarrow> jsobject" where
  "setProperty obj k v = (if k = js ''__proto__'' then obj else assign obj k v)"

definition writeRow :: "jsstring list \<Rightarrow> jsstring list \<Rightarrow> jsobject" where
  "writeRow hs cells =
     foldl (\<lambda>obj (index, cell).
              setProperty obj (if index < length hs then hs ! index else js ''_'' @ showNat index) cell)
           [] (zip [0 ..< length cells] cells)"

text \<open>
  \<open>Object.values\<close> lists the properties whose names are array indices (the decimal
  numerals of the numbers below \<open>2^32 - 1\<close>) first, in ascending order, and then the
  others in the order of their creation.
\<close>

definition digitsValue :: "jsstring \<Rightarrow> nat" where
  "digitsValue k = foldl (\<lambda>n c. 10 * n + (c - 48)) 0 k"

definition isArrayIndex :: "jsstring \<Rightarrow> bool" where
  "isArrayIndex k =
     (k \<noteq> [] \<and> list_all isDigit k \<and> (hd k \<noteq> 48 \<or> length k = 1) \<and> digitsValue k < 4294967295)"

definition objectValues :: "jsobject \<Rightarrow> jsstring list" where
  "objectValues obj =
     map snd (sort_key (\<lambda>p. digitsValue (fst p)) (filter (\<lambda>p. isArrayIndex (fst p)) obj)) @
     map snd (filter (\<lambda>p. \<not> isArrayIndex (fst p)) obj)"

text \<open>
  The rows that the stream emits as \<open>data\<close>: the first line gives the headers, every
  other line a row.
\<close>

definition csvParser :: "jsstring \<Rightarrow> jsobject list" where
  "csvParser csvContent =
     (case map (\<lambda>(consumed, line). parseLine consumed line)
               (splitLines (toWellFormed csvContent) True False False True 10 [] []) of
        [] \<Rightarrow> []
      | hs # rows \<Rightarrow> map (writeRow hs) rows)"

text \<open>
  \<open>parseCSVUrls\<close> takes the first value of each row, which is \<open>undefined\<close> for a row
  without properties. \<open>valid\<close> is \<open>isValidUrl\<close>, that is whether \<open>new URL\<close> accepts the
  string.
\<close>

definition parseCSVUrls :: "(jsstring \<Rightarrow> bool) \<Rightarrow> jsstring \<Rightarrow> jsstring list" where
  "parseCSVUrls valid csvContent =
     concat (map (\<lambda>row. case objectValues row of
                          [] \<Rightarrow> []
                        | firstColumnValue # others \<Rightarrow>
                            if firstColumnValue \<noteq> [] \<and> valid (trim firstColumnValue)
                            then [trim firstColumnValue] else [])
                 (csvParser csvContent))"

text \<open>
  The reader that simply changes \<open>quoted\<close> at every quote, with which the proofs compare
  \<open>splitLines\<close>.
\<close>

fun splitAtUnquoted :: "jsstring \<Rightarrow> bool \<Rightarrow> bool \<Rightarrow> nat \<Rightarrow> jsstring \<Rightarrow> jsstring list" where
  "splitAtUnquoted [] quoted first newline line = (if line = [] then [] else [line])"
| "splitAtUnquoted (chr # rest) quoted first newline line =
     (if chr = 34 then splitAtUnquoted rest (\<not> quoted) first newline (line @ [chr])
      else if quoted then splitAtUnquoted rest quoted first newline (line @ [chr])
      else (let detected = (if first
                            then (if chr = 10 then 10
                                  else if chr = 13 \<and> (rest = [] \<or> hd rest \<noteq> 10) then 13
                                  else newline)
                            else newline)
            in if chr = detected
               then line # splitAtUnquoted rest quoted False detected []
               else splitAtUnquoted rest quoted first detected (line @ [chr])))"

section \<open>The CSV upload endpoint (POST of the upload route)\<close>

record File =
  fileName :: jsstring
  fileSize :: nat
  fileText :: jsstring

text \<open>The request: \<open>request.formData()\<close> throws, or it gives a form with or without a file.\<close>

datatype uploadRequest = InvalidForm | Form "File option"

definition uploadPOST :: "(jsstring \<Rightarrow> bool) \<Rightarrow> uploadRequest \<Rightarrow> nextResponse" where
  "uploadPOST valid req =
     (case req of
        InvalidForm \<Rightarrow> NextResponse 500 (ErrorBody (js ''Failed to process CSV file''))
      | Form None \<Rightarrow> NextResponse 400 (ErrorBody (js ''No file uploaded''))
      | Form (Some file) \<Rightarrow>
          if \<not> endsWith (fileName file) (js ''.csv'')
          then NextResponse 400 (ErrorBody (js ''Only CSV files are allowed''))
          else if fileSize file > 5 * 1024 * 1024
          then NextResponse 400 (ErrorBody (js ''File size must be less than 5MB''))
          else (let urls = parseCSVUrls valid (fileText file)
                in if length urls = 0
                   then NextResponse 400 (ErrorBody (js ''No valid URLs found in CSV file''))
                   else if length urls > 50
                   then NextResponse 400 (ErrorBody (js ''Maximum 50 URLs allowed per CSV file''))
                   else NextResponse 200 (UrlsBody urls (length urls))))"

section \<open>Worlds and inputs for the examples\<close>

text \<open>
  The examples below need a concrete answer of \<open>new URL\<close>: here a string is accepted when
  it starts with \<open>http://\<close> or \<open>https://\<close> and goes on, which is how the platform answers
  on the strings of the examples.
\<close>

definition httpUrl :: "jsstring \<Rightarrow> bool" where
  "httpUrl u = ((prefix (js ''http://'') u \<and> length u > 7) \<or> (prefix (js ''https://'') u \<and> length u > 8))"

definition emptyInfo :: ContactInfo where
  "emptyInfo = \<lparr> contacts = [], phoneNumbers = [], emailAddresses = [], people = [] \<rparr>"

text \<open>A world in which the three requests have the given outcomes, whatever the URL.\<close>

definition webOf ::
  "(thrown + unit response) \<Rightarrow> (thrown + unit response) \<Rightarrow> (thrown + unit response) \<Rightarrow> unit web" where
  "webOf r1 r2 r3 =
     \<lparr> isValidUrl = httpUrl,
       fetchWithFullHeaders = (\<lambda>u. r1),
       fetchWithMinimalHeaders = (\<lambda>u. r2),
       fetchSimple = (\<lambda>u. r3),
       extractAll = (\<lambda>h. Inr emptyInfo) \<rparr>"

text \<open>An engine given by the table of its answers; a pattern and text not listed do not match.\<close>

definition matcherOf :: "((pattern \<times> jsstring) \<times> jsstring) list \<Rightarrow> matcher" where
  "matcherOf table p text = map_of table (p, text)"

text \<open>Three contacts; the second has the name of the first in capitals and another title.\<close>

definition matti :: Contact where
  "matti = \<lparr> name = js ''Matti Virtanen'', title = js ''toimitusjohtaja'',
             phone = Some (js ''+358401234567''), email = None \<rparr>"

definition mattiAgain :: Contact where
  "mattiAgain = \<lparr> name = js ''MATTI VIRTANEN'', title = js ''Tuntematon'',
                  phone = None, email = Some (js ''matti@example.fi'') \<rparr>"

definition liisa :: Contact where
  "liisa = \<lparr> name = js ''Liisa Korhonen'', title = js ''myynti'', phone = None, email = None \<rparr>"

text \<open>
  Three worlds: the first request is answered with 403 Forbidden; every request runs into
  the timeout that axios was given; the first request fails with a connection timeout
  whose message names the address and port of the server. Where a world has \<open>okResponse\<close>,
  a later request would succeed.
\<close>

definition okResponse :: "thrown + unit response" where
  "okResponse = Inr (Response 200 (js ''OK'') ())"

definition forbiddenWeb :: "unit web" where
  "forbiddenWeb = webOf (Inr (Response 403 (js ''Forbidden'') ())) okResponse okResponse"

definition timeoutWeb :: "unit web" where
  "timeoutWeb = webOf (Inl (Error (js ''timeout of 20000ms exceeded'')))
                      (Inl (Error (js ''timeout of 25000ms exceeded'')))
                      (Inl (Error (js ''timeout of 30000ms exceeded'')))"

definition portWeb :: "unit web" where
  "portWeb = webOf (Inl (Error (js ''connect ETIMEDOUT 192.0.2.1:8400''))) okResponse okResponse"

text \<open>
  A world in which every request is answered with 200 OK, a clock that always shows the
  same time, and an uploaded file whose only row holds no valid URL.
\<close>

definition okWeb :: "unit web" where
  "okWeb = webOf okResponse okResponse okResponse"

definition noon :: "nat \<Rightarrow> jsstring" where
  "noon i = js ''2024-01-01T12:00:00.000Z''"

definition onlyHeaderAndBadRow :: File where
  "onlyHeaderAndBadRow = \<lparr> fileName = js ''urls.csv'', fileSize = 15, fileText = js ''URL'' @ [10] @ js ''example.fi'' @ [10] \<rparr>"

text \<open>
  Five results: the failure that the batch endpoint gives for the invalid URL
  \<open>example.fi\<close>; a success with two grouped contacts; a success with one; the failure
  of a valid URL whose server does not answer; and the failure of a URL that ends with a
  high surrogate without its partner.
\<close>

definition failedResult :: ScrapingResult where
  "failedResult = \<lparr> url = js ''example.fi'', success = False, data = None,
      error = Some (js ''Failed to scrape example.fi after 3 attempts: Invalid URL provided''),
      timestamp = js ''2024-01-01T12:00:00.000Z'' \<rparr>"

definition twoContacts :: ScrapingResult where
  "twoContacts = \<lparr> url = js ''https://example.fi'', success = True,
      data = Some \<lparr> contacts = [matti, liisa], phoneNumbers = [], emailAddresses = [], people = [] \<rparr>,
      error = None, timestamp = js ''2024-01-01T12:00:00.000Z'' \<rparr>"

definition oneContact :: ScrapingResult where
  "oneContact = \<lparr> url = js ''https://example.fi'', success = True,
      data = Some \<lparr> contacts = [matti], phoneNumbers = [js ''+358401234567''], emailAddresses = [],
                    people = [] \<rparr>,
      error = None, timestamp = js ''2024-01-01T12:00:00.000Z'' \<rparr>"

definition timedOut :: ScrapingResult where
  "timedOut = \<lparr> url = js ''https://down.example.fi'', success = False, data = None,
      error = Some (js ''Failed to scrape https://down.example.fi after 3 attempts: timeout of 30000ms exceeded''),
      timestamp = js ''2024-01-01T12:00:00.000Z'' \<rparr>"

definition unpaired :: ScrapingResult where
  "unpaired = \<lparr> url = js ''https://example.fi/'' @ [55296], success = False, data = None,
      error = Some (js ''Failed to scrape after 3 attempts: timeout of 30000ms exceeded''),
      timestamp = js ''2024-01-01T12:00:00.000Z'' \<rparr>"

chapter \<open>Properties\<close>

text \<open>
  The recursive equations of the loops are unfolded by hand below, one step at a time.
\<close>

declare scrapeLoop.simps [simp del] showNat.simps [simp del] chunkLoop.simps [simp del]

section \<open>Phone numbers\<close>

lemma js_plus358: "js ''+358'' = [43, 51, 53, 56]"
  by (simp add: js_def)

lemma js_zero: "js ''0'' = [48]"
  by (simp add: js_def)

lemma stripPhone_append: "stripPhone (a @ b) = stripPhone a @ stripPhone b"
  by (simp add: stripPhone_def)

lemma stripPhone_idem: "stripPhone (stripPhone p) = stripPhone p"
  by (simp add: stripPhone_def)

lemma stripPhone_digits: "list_all isDigit ds \<Longrightarrow> stripPhone ds = ds"
  by (induction ds) (auto simp: stripPhone_def)

lemma stripPhone_spaces: "list_all isSpace ws \<Longrightarrow> stripPhone ws = []"
  by (induction ws) (auto simp: stripPhone_def isSpace_def isDigit_def)

lemma stripPhone_plus358: "stripPhone (js ''+358'' @ s) = js ''+358'' @ stripPhone s"
  by (simp add: stripPhone_def js_plus358 isDigit_def)

lemma stripPhone_zero: "stripPhone (js ''0'' @ s) = js ''0'' @ stripPhone s"
  by (simp add: stripPhone_def js_zero isDigit_def)

lemma normalize_international:
  "startsWith (stripPhone p) (js ''+358'') \<Longrightarrow> normalizePhoneNumber p = stripPhone p"
  by (simp add: normalizePhoneNumber_def)

lemma normalize_national:
  assumes "startsWith (stripPhone p) (js ''0'')"
  shows "normalizePhoneNumber p = js ''+358'' @ drop 1 (stripPhone p)"
proof -
  from assms obtain r where "stripPhone p = 48 # r"
    by (auto simp: startsWith_def prefix_def js_zero)
  then have "\<not> startsWith (stripPhone p) (js ''+358'')"
    by (simp add: startsWith_def js_plus358)
  with assms show ?thesis
    by (simp add: normalizePhoneNumber_def substring1_def)
qed

lemma normalize_other:
  "\<not> startsWith (stripPhone p) (js ''+358'') \<Longrightarrow> \<not> startsWith (stripPhone p) (js ''0'')
   \<Longrightarrow> normalizePhoneNumber p = p"
  by (simp add: normalizePhoneNumber_def)

lemma normalize_idem: "normalizePhoneNumber (normalizePhoneNumber p) = normalizePhoneNumber p"
proof -
  let ?c = "stripPhone p"
  consider (intl) "startsWith ?c (js ''+358'')"
    | (natl) "\<not> startsWith ?c (js ''+358'')" "startsWith ?c (js ''0'')"
    | (other) "\<not> startsWith ?c (js ''+358'')" "\<not> startsWith ?c (js ''0'')"
    by blast
  then show ?thesis
  proof cases
    case intl
    then have "startsWith (stripPhone ?c) (js ''+358'')"
      by (simp add: stripPhone_idem)
    then show ?thesis
      using intl by (simp add: normalize_international stripPhone_idem)
  next
    case natl
    then obtain r where r: "?c = js ''0'' @ r"
      by (auto simp: startsWith_def prefix_def)
    have "stripPhone r = r"
      using stripPhone_idem [of p] unfolding r stripPhone_zero by simp
    then have "stripPhone (js ''+358'' @ r) = js ''+358'' @ r"
      by (simp add: stripPhone_plus358)
    moreover have "normalizePhoneNumber p = js ''+358'' @ r"
      using normalize_national [OF natl(2)] r by (simp add: js_zero)
    ultimately show ?thesis
      by (simp add: normalize_international startsWith_def)
  next
    case other
    then show ?thesis
      by (simp add: normalize_other)
  qed
qed

text \<open>
  C6. Normalising twice is normalising once, for every string. A string that is \<open>+358\<close>
  followed by digits only comes back unchanged, and a string that is \<open>0\<close> followed by
  digits only becomes \<open>+358\<close> followed by those digits. In general the branch is chosen
  on the string stripped of everything but digits and plus signs: when the stripped
  string starts with \<open>+358\<close> the result is the stripped string; when it starts with \<open>0\<close>
  the result is \<open>+358\<close> followed by the rest of the stripped string; and only when it
  starts with neither does the string come back exactly as it was given.
\<close>

theorem normalizePhoneNumber_idempotent:
  "normalizePhoneNumber (normalizePhoneNumber p) = normalizePhoneNumber p \<and>
   (list_all isDigit ds \<longrightarrow> normalizePhoneNumber (js ''+358'' @ ds) = js ''+358'' @ ds) \<and>
   (list_all isDigit ds \<longrightarrow> normalizePhoneNumber (js ''0'' @ ds) = js ''+358'' @ ds) \<and>
   (startsWith (stripPhone p) (js ''+358'') \<longrightarrow> normalizePhoneNumber p = stripPhone p) \<and>
   (startsWith (stripPhone p) (js ''0'') \<longrightarrow>
      normalizePhoneNumber p = js ''+358'' @ drop 1 (stripPhone p)) \<and>
   (\<not> startsWith (stripPhone p) (js ''+358'') \<and> \<not> startsWith (stripPhone p) (js ''0'')
      \<longrightarrow> normalizePhoneNumber p = p)"
proof (intro conjI impI)
  show "normalizePhoneNumber (normalizePhoneNumber p) = normalizePhoneNumber p"
    by (rule normalize_idem)
next
  assume ds: "list_all isDigit ds"
  then have "stripPhone (js ''+358'' @ ds) = js ''+358'' @ ds"
    by (simp add: stripPhone_plus358 stripPhone_digits)
  then show "normalizePhoneNumber (js ''+358'' @ ds) = js ''+358'' @ ds"
    by (simp add: normalize_international startsWith_def)
next
  assume ds: "list_all isDigit ds"
  then have "stripPhone (js ''0'' @ ds) = js ''0'' @ ds"
    by (simp add: stripPhone_zero stripPhone_digits)
  then show "normalizePhoneNumber (js ''0'' @ ds) = js ''+358'' @ ds"
    by (simp add: normalize_national startsWith_def) (simp add: js_zero)
next
  assume "startsWith (stripPhone p) (js ''+358'')"
  then show "normalizePhoneNumber p = stripPhone p"
    by (rule normalize_international)
next
  assume "startsWith (stripPhone p) (js ''0'')"
  then show "normalizePhoneNumber p = js ''+358'' @ drop 1 (stripPhone p)"
    by (rule normalize_national)
next
  assume "\<not> startsWith (stripPhone p) (js ''+358'') \<and> \<not> startsWith (stripPhone p) (js ''0'')"
  then show "normalizePhoneNumber p = p"
    by (simp add: normalize_other)
qed

text \<open>
  The three branches at \<open>+358 40 123 4567\<close>, \<open>040 123 4567\<close> and \<open>12-345\<close>, and the two
  shapes at the digits \<open>401234567\<close>.
\<close>

theorem normalizePhoneNumber_idempotent_witness:
  "normalizePhoneNumber (normalizePhoneNumber (js ''040 123 4567'')) = normalizePhoneNumber (js ''040 123 4567'') \<and>
   list_all isDigit (js ''401234567'') \<and>
   normalizePhoneNumber (js ''+358401234567'') = js ''+358401234567'' \<and>
   normalizePhoneNumber (js ''0401234567'') = js ''+358401234567'' \<and>
   startsWith (stripPhone (js ''+358 40 123 4567'')) (js ''+358'') \<and>
   normalizePhoneNumber (js ''+358 40 123 4567'') = js ''+358401234567'' \<and>
   startsWith (stripPhone (js ''040 123 4567'')) (js ''0'') \<and>
   normalizePhoneNumber (js ''040 123 4567'') = js ''+358401234567'' \<and>
   \<not> startsWith (stripPhone (js ''12-345'')) (js ''+358'') \<and>
   \<not> startsWith (stripPhone (js ''12-345'')) (js ''0'') \<and>
   normalizePhoneNumber (js ''12-345'') = js ''12-345''"
  using normalizePhoneNumber_idempotent [of "js ''040 123 4567''" "js ''401234567''"]
    normalizePhoneNumber_idempotent [of "js ''+358 40 123 4567''" "[]"]
    normalizePhoneNumber_idempotent [of "js ''12-345''" "[]"]
  by (simp add: js_def normalizePhoneNumber_def stripPhone_def isDigit_def startsWith_def
      substring1_def)

text \<open>
  The claim's last clause read on the given string is refuted twice. \<open>(040) 123 4567\<close>
  starts with neither \<open>+358\<close> nor \<open>0\<close>, and \<open>+358 40 123 4567\<close> is neither \<open>+358\<close> followed
  by digits only nor a string that starts with \<open>0\<close>; neither comes back as it was given,
  both become \<open>+358401234567\<close>.
\<close>

theorem normalizePhoneNumber_shape_counterexample:
  "\<not> startsWith (js ''(040) 123 4567'') (js ''+358'') \<and>
   \<not> startsWith (js ''(040) 123 4567'') (js ''0'') \<and>
   normalizePhoneNumber (js ''(040) 123 4567'') = js ''+358401234567'' \<and>
   normalizePhoneNumber (js ''(040) 123 4567'') \<noteq> js ''(040) 123 4567'' \<and>
   startsWith (js ''+358 40 123 4567'') (js ''+358'') \<and>
   \<not> list_all isDigit (drop 4 (js ''+358 40 123 4567'')) \<and>
   \<not> startsWith (js ''+358 40 123 4567'') (js ''0'') \<and>
   normalizePhoneNumber (js ''+358 40 123 4567'') = js ''+358401234567'' \<and>
   normalizePhoneNumber (js ''+358 40 123 4567'') \<noteq> js ''+358 40 123 4567''"
  by (simp add: js_def normalizePhoneNumber_def stripPhone_def isDigit_def startsWith_def
      substring1_def)

text \<open>
  What the second expression of \<open>isValidPhoneNumber\<close> accepts: a prefix, then nine digits
  with at most two white-space characters between them, which the first expression
  accepts once they are stripped.
\<close>

lemma takeDigits_Some:
  "takeDigits n s = Some r \<Longrightarrow> \<exists>ds. s = ds @ r \<and> length ds = n \<and> list_all isDigit ds"
proof (induction n s rule: takeDigits.induct)
  case (1 s)
  then show ?case by simp
next
  case (2 n)
  then show ?case by simp
next
  case (3 n c cs)
  then have d: "isDigit c" and t: "takeDigits n cs = Some r"
    by (auto split: if_splits)
  from 3(1) [OF d t] obtain ds where "cs = ds @ r" "length ds = n" "list_all isDigit ds"
    by blast
  with d have "c # cs = (c # ds) @ r \<and> length (c # ds) = Suc n \<and> list_all isDigit (c # ds)"
    by simp
  then show ?case by blast
qed

lemma optSpace_cases:
  "t \<in> set (optSpace s) \<Longrightarrow> \<exists>ws. s = ws @ t \<and> list_all isSpace ws"
  by (cases s) (auto simp: optSpace_def split: if_splits)

lemma reSpacedTail_strip:
  assumes "reSpacedTail s"
  shows "digits8to9 (stripPhone s)"
proof -
  from assms obtain s1 s2 s3 s4 where
    a: "takeDigits 2 s = Some s1" and b: "s2 \<in> set (optSpace s1)" and
    c: "takeDigits 3 s2 = Some s3" and d: "s4 \<in> set (optSpace s3)" and
    e: "takeDigits 4 s4 = Some []"
    by (auto simp: reSpacedTail_def list_ex_iff split: option.splits)
  from takeDigits_Some [OF a] obtain d2 where
    d2: "s = d2 @ s1" "length d2 = 2" "list_all isDigit d2" by blast
  from optSpace_cases [OF b] obtain w1 where
    w1: "s1 = w1 @ s2" "list_all isSpace w1" by blast
  from takeDigits_Some [OF c] obtain d3 where
    d3: "s2 = d3 @ s3" "length d3 = 3" "list_all isDigit d3" by blast
  from optSpace_cases [OF d] obtain w2 where
    w2: "s3 = w2 @ s4" "list_all isSpace w2" by blast
  from takeDigits_Some [OF e] have
    d4: "length s4 = 4" "list_all isDigit s4" by auto
  have "stripPhone s = d2 @ d3 @ s4"
    using d2 w1 d3 w2 d4 by (simp add: stripPhone_append stripPhone_digits stripPhone_spaces)
  with d2 d3 d4 show ?thesis
    by (simp add: digits8to9_def)
qed

lemma reSpaced_imp_reClean:
  assumes "reSpacedPhone p"
  shows "reCleanPhone (stripPhone p)"
proof -
  from assms consider
      (intl) r where "p = js ''+358'' @ r" "reSpacedTail r"
    | (natl) r where "p = js ''0'' @ r" "reSpacedTail r"
    by (auto simp: reSpacedPhone_def prefix_def js_plus358 js_zero)
  then show ?thesis
  proof cases
    case intl
    then show ?thesis
      using reSpacedTail_strip [of r]
      by (simp add: reCleanPhone_def stripPhone_plus358) (simp add: js_plus358)
  next
    case natl
    then show ?thesis
      using reSpacedTail_strip [of r]
      by (simp add: reCleanPhone_def stripPhone_zero) (simp add: js_zero)
  qed
qed

lemma reCleanPhone_iff:
  "reCleanPhone s \<longleftrightarrow>
     (\<exists>ds. (s = js ''0'' @ ds \<or> s = js ''+358'' @ ds) \<and>
           (length ds = 8 \<or> length ds = 9) \<and> list_all isDigit ds)"
  unfolding reCleanPhone_def digits8to9_def js_plus358 js_zero
  by (auto simp: prefix_def)

text \<open>
  C7. \<open>isValidPhoneNumber p\<close> holds exactly when \<open>p\<close> without the code units that are
  neither digits nor \<open>+\<close> is \<open>0\<close> followed by eight or nine digits, or \<open>+358\<close> followed by
  eight or nine digits. (The second test of the source, on the string as given, accepts
  nothing that the first test rejects.)
\<close>

theorem isValidPhoneNumber_iff:
  "isValidPhoneNumber p \<longleftrightarrow>
     (\<exists>ds. (stripPhone p = js ''0'' @ ds \<or> stripPhone p = js ''+358'' @ ds) \<and>
           (length ds = 8 \<or> length ds = 9) \<and> list_all isDigit ds)"
  using reSpaced_imp_reClean [of p]
  by (auto simp: isValidPhoneNumber_def Let_def reCleanPhone_iff)

theorem isValidPhoneNumber_iff_witness:
  "isValidPhoneNumber (js ''040 123 4567'') \<and> isValidPhoneNumber (js ''+358 40 123 4567'') \<and>
   \<not> isValidPhoneNumber (js ''040 123'')"
proof -
  have a: "stripPhone (js ''040 123 4567'') = js ''0'' @ js ''401234567''"
    and b: "stripPhone (js ''+358 40 123 4567'') = js ''+358'' @ js ''401234567''"
    and c: "stripPhone (js ''040 123'') = js ''0'' @ js ''40123''"
    by (simp_all add: js_def stripPhone_def isDigit_def)
  have d: "list_all isDigit (js ''401234567'')" "length (js ''401234567'') = 9"
    by (simp_all add: js_def isDigit_def)
  have "isValidPhoneNumber (js ''040 123 4567'')"
    unfolding isValidPhoneNumber_iff [of "js ''040 123 4567''"] a using d by blast
  moreover have "isValidPhoneNumber (js ''+358 40 123 4567'')"
    unfolding isValidPhoneNumber_iff [of "js ''+358 40 123 4567''"] b using d by blast
  moreover have "\<not> isValidPhoneNumber (js ''040 123'')"
    unfolding isValidPhoneNumber_iff [of "js ''040 123''"] c
    by (auto simp: js_def)
  ultimately show ?thesis by blast
qed

section \<open>The title of a grouped contact\<close>

lemma titleLoop_find:
  "titleLoop lc text ks t =
     (case find (\<lambda>k. js_includes (lc text) k) ks of None \<Rightarrow> t | Some k \<Rightarrow> k)"
  by (induction ks) auto

lemma extract_title:
  "extractContactFromElement lc rx text = Some c \<Longrightarrow>
   title c = titleLoop lc text titleKeywords (js ''Tuntematon'')"
  by (auto simp: extractContactFromElement_def split: option.splits if_splits)

text \<open>
  C4, as the code has it. When a contact is extracted from a region, its title is the
  first keyword of \<open>titleKeywords\<close> that the lower-cased text of the region includes; when
  the text includes no keyword, the title is the string \<open>Tuntematon\<close>.
\<close>

theorem title_first_keyword:
  assumes "extractContactFromElement lc rx text = Some c"
  shows "((\<exists>k\<in>set titleKeywords. js_includes (lc text) k) \<longrightarrow>
            (\<exists>i<length titleKeywords. title c = titleKeywords ! i \<and>
               js_includes (lc text) (titleKeywords ! i) \<and>
               (\<forall>j<i. \<not> js_includes (lc text) (titleKeywords ! j)))) \<and>
         ((\<forall>k\<in>set titleKeywords. \<not> js_includes (lc text) k) \<longrightarrow> title c = js ''Tuntematon'')"
proof (intro conjI impI)
  assume "\<exists>k\<in>set titleKeywords. js_includes (lc text) k"
  then obtain k where k: "find (\<lambda>k. js_includes (lc text) k) titleKeywords = Some k"
    by (cases "find (\<lambda>k. js_includes (lc text) k) titleKeywords") (auto simp: find_None_iff)
  then have "title c = k"
    using extract_title [OF assms] by (simp add: titleLoop_find)
  with k show "\<exists>i<length titleKeywords. title c = titleKeywords ! i \<and>
               js_includes (lc text) (titleKeywords ! i) \<and>
               (\<forall>j<i. \<not> js_includes (lc text) (titleKeywords ! j))"
    by (auto simp: find_Some_iff)
next
  assume "\<forall>k\<in>set titleKeywords. \<not> js_includes (lc text) k"
  then have "find (\<lambda>k. js_includes (lc text) k) titleKeywords = None"
    by (simp add: find_None_iff)
  then show "title c = js ''Tuntematon''"
    using extract_title [OF assms] by (simp add: titleLoop_find)
qed

text \<open>
  A region whose text is \<open>Matti Virtanen Sales Manager\<close> (the first name pattern matches
  \<open>Matti Virtanen Sales\<close> there): the title is \<open>sales manager\<close>, the sixth keyword, though
  \<open>manager\<close> further down the list is included too.
\<close>

theorem title_first_keyword_witness:
  "extractContactFromElement toLowerCaseLatin1
      (matcherOf [((NameFinnish, js ''Matti Virtanen Sales Manager''), js ''Matti Virtanen Sales'')])
      (js ''Matti Virtanen Sales Manager'')
     = Some \<lparr> name = js ''Matti Virtanen Sales'', title = js ''sales manager'',
              phone = None, email = None \<rparr> \<and>
   titleKeywords ! 5 = js ''sales manager'' \<and> titleKeywords ! 25 = js ''manager'' \<and>
   js_includes (toLowerCaseLatin1 (js ''Matti Virtanen Sales Manager'')) (js ''manager'')"
  using title_first_keyword [of toLowerCaseLatin1
      "matcherOf [((NameFinnish, js ''Matti Virtanen Sales Manager''), js ''Matti Virtanen Sales'')]"
      "js ''Matti Virtanen Sales Manager''"
      "\<lparr> name = js ''Matti Virtanen Sales'', title = js ''sales manager'',
         phone = None, email = None \<rparr>"]
  by (simp add: extractContactFromElement_def namePatterns_def phonePatterns_def matcherOf_def
      titleKeywords_def toLowerCaseLatin1_def lowerUnit_def js_def trim_def isSpace_def)

text \<open>
  C4 as the claim words it fails on the sentinel: a region whose text is
  \<open>Matti Virtanen\<close> includes no keyword, and the title of its contact is \<open>Tuntematon\<close>,
  not \<open>unknown\<close>.
\<close>

theorem title_sentinel_counterexample:
  "extractContactFromElement toLowerCaseLatin1
      (matcherOf [((NameFinnish, js ''Matti Virtanen''), js ''Matti Virtanen'')])
      (js ''Matti Virtanen'')
     = Some \<lparr> name = js ''Matti Virtanen'', title = js ''Tuntematon'', phone = None, email = None \<rparr> \<and>
   \<not> list_ex (\<lambda>k. js_includes (toLowerCaseLatin1 (js ''Matti Virtanen'')) k) titleKeywords \<and>
   js ''Tuntematon'' \<noteq> js ''unknown''"
  by (simp add: extractContactFromElement_def namePatterns_def phonePatterns_def matcherOf_def
      titleKeywords_def toLowerCaseLatin1_def lowerUnit_def js_def trim_def isSpace_def)

section \<open>Removing duplicate contacts\<close>

text \<open>
  The loop with its accumulator: what it adds is a subsequence of the input, each added
  contact is the first of the input with its lower-cased name and differs in that name
  from everything accumulated before, and every name of the input is represented.
\<close>

lemma uniqueLoop_acc:
  "\<exists>ys. uniqueLoop lc cs acc = acc @ ys \<and> subseq ys cs \<and>
        (\<forall>c\<in>set ys. (\<forall>a\<in>set acc. lc (name a) \<noteq> lc (name c)) \<and>
                      find (\<lambda>d. lc (name d) = lc (name c)) cs = Some c) \<and>
        distinct (map (\<lambda>c. lc (name c)) ys) \<and>
        (\<forall>c\<in>set cs. \<exists>k\<in>set acc \<union> set ys. lc (name k) = lc (name c))"
proof (induction cs arbitrary: acc)
  case Nil
  then show ?case by simp
next
  case (Cons c cs)
  show ?case
  proof (cases "\<exists>a\<in>set acc. lc (name a) = lc (name c)")
    case True
    from Cons.IH [of acc] obtain ys where ys:
      "uniqueLoop lc cs acc = acc @ ys" "subseq ys cs"
      "\<forall>d\<in>set ys. (\<forall>a\<in>set acc. lc (name a) \<noteq> lc (name d)) \<and>
                      find (\<lambda>e. lc (name e) = lc (name d)) cs = Some d"
      "distinct (map (\<lambda>c. lc (name c)) ys)"
      "\<forall>d\<in>set cs. \<exists>k\<in>set acc \<union> set ys. lc (name k) = lc (name d)"
      by blast
    have "uniqueLoop lc (c # cs) acc = acc @ ys"
      using True ys(1) by (simp add: list_ex_iff)
    moreover have "subseq ys (c # cs)"
      using ys(2) by (rule list_emb_Cons)
    moreover have "\<forall>d\<in>set ys. (\<forall>a\<in>set acc. lc (name a) \<noteq> lc (name d)) \<and>
                      find (\<lambda>e. lc (name e) = lc (name d)) (c # cs) = Some d"
      using ys(3) True by auto
    moreover have "\<forall>d\<in>set (c # cs). \<exists>k\<in>set acc \<union> set ys. lc (name k) = lc (name d)"
      using ys(5) True by auto
    ultimately show ?thesis using ys(4) by blast
  next
    case False
    from Cons.IH [of "acc @ [c]"] obtain ys where ys:
      "uniqueLoop lc cs (acc @ [c]) = (acc @ [c]) @ ys" "subseq ys cs"
      "\<forall>d\<in>set ys. (\<forall>a\<in>set (acc @ [c]). lc (name a) \<noteq> lc (name d)) \<and>
                      find (\<lambda>e. lc (name e) = lc (name d)) cs = Some d"
      "distinct (map (\<lambda>c. lc (name c)) ys)"
      "\<forall>d\<in>set cs. \<exists>k\<in>set (acc @ [c]) \<union> set ys. lc (name k) = lc (name d)"
      by blast
    have "uniqueLoop lc (c # cs) acc = acc @ (c # ys)"
      using False ys(1) by (simp add: list_ex_iff)
    moreover have "subseq (c # ys) (c # cs)"
      using ys(2) by simp
    moreover have "\<forall>d\<in>set (c # ys). (\<forall>a\<in>set acc. lc (name a) \<noteq> lc (name d)) \<and>
                      find (\<lambda>e. lc (name e) = lc (name d)) (c # cs) = Some d"
      using ys(3) False by auto
    moreover have "distinct (map (\<lambda>c. lc (name c)) (c # ys))"
      using ys(3,4) by auto
    moreover have "\<forall>d\<in>set (c # cs). \<exists>k\<in>set acc \<union> set (c # ys). lc (name k) = lc (name d)"
      using ys(5) by auto
    ultimately show ?thesis by blast
  qed
qed

text \<open>
  C5. For every list of contacts the result has at most ten elements, is a subsequence
  of the input (the order is kept), holds no two contacts whose names are equal up to
  case, and each contact in it is the first contact of the input with that name up to
  case, with its own title, phone and email. Nothing but the cut at ten loses a name:
  every name of the input is in the result unless the result is full.
\<close>

theorem removeDuplicateContacts_stable:
  "length (removeDuplicateContacts lc cs) \<le> 10 \<and>
   subseq (removeDuplicateContacts lc cs) cs \<and>
   distinct (map (\<lambda>c. lc (name c)) (removeDuplicateContacts lc cs)) \<and>
   (\<forall>c\<in>set (removeDuplicateContacts lc cs). find (\<lambda>d. lc (name d) = lc (name c)) cs = Some c) \<and>
   (\<forall>c\<in>set cs. (\<exists>k\<in>set (removeDuplicateContacts lc cs). lc (name k) = lc (name c)) \<or>
                 length (removeDuplicateContacts lc cs) = 10)"
proof -
  from uniqueLoop_acc [of lc cs "[]"] obtain ys where ys:
    "uniqueLoop lc cs [] = ys" "subseq ys cs"
    "\<forall>c\<in>set ys. find (\<lambda>d. lc (name d) = lc (name c)) cs = Some c"
    "distinct (map (\<lambda>c. lc (name c)) ys)"
    "\<forall>c\<in>set cs. \<exists>k\<in>set ys. lc (name k) = lc (name c)"
    by auto
  have r: "removeDuplicateContacts lc cs = take 10 ys"
    by (simp add: removeDuplicateContacts_def ys(1))
  have "subseq (take 10 ys) ys"
    by (metis append_take_drop_id prefix_def prefix_imp_subseq)
  then have a: "subseq (take 10 ys) cs"
    using ys(2) subseq_order.order_trans by blast
  have b: "distinct (map (\<lambda>c. lc (name c)) (take 10 ys))"
    using ys(4) by (simp add: take_map [symmetric])
  have c: "\<forall>c\<in>set (take 10 ys). find (\<lambda>d. lc (name d) = lc (name c)) cs = Some c"
    using ys(3) by (meson in_set_takeD)
  have d: "\<forall>c\<in>set cs. (\<exists>k\<in>set (take 10 ys). lc (name k) = lc (name c)) \<or>
                       length (take 10 ys) = 10"
  proof (cases "length ys \<le> 10")
    case True
    then show ?thesis using ys(5) by simp
  next
    case False
    then show ?thesis by simp
  qed
  show ?thesis unfolding r using a b c d by simp
qed

theorem removeDuplicateContacts_stable_witness:
  "removeDuplicateContacts toLowerCaseLatin1 [matti, mattiAgain, liisa] = [matti, liisa] \<and>
   toLowerCaseLatin1 (name mattiAgain) = toLowerCaseLatin1 (name matti) \<and>
   title mattiAgain \<noteq> title matti \<and>
   matti \<in> set (removeDuplicateContacts toLowerCaseLatin1 [matti, mattiAgain, liisa]) \<and>
   find (\<lambda>d. toLowerCaseLatin1 (name d) = toLowerCaseLatin1 (name matti)) [matti, mattiAgain, liisa]
     = Some matti"
  using removeDuplicateContacts_stable [of toLowerCaseLatin1 "[matti, mattiAgain, liisa]"]
  by (simp add: removeDuplicateContacts_def matti_def mattiAgain_def liisa_def js_def
      toLowerCaseLatin1_def lowerUnit_def)

section \<open>The retry loop\<close>

text \<open>A string includes a pattern when the pattern stands somewhere inside it.\<close>

lemma js_includes_iff: "js_includes s p \<longleftrightarrow> (\<exists>a b. s = a @ p @ b)"
proof (induction s)
  case Nil
  then show ?case by auto
next
  case (Cons c cs)
  show ?case
  proof
    assume "js_includes (c # cs) p"
    then consider "prefix p (c # cs)" | "js_includes cs p" by auto
    then show "\<exists>a b. c # cs = a @ p @ b"
    proof cases
      case 1
      then obtain b where "c # cs = p @ b" by (auto simp: prefix_def)
      then have "c # cs = [] @ p @ b" by simp
      then show ?thesis by blast
    next
      case 2
      with Cons.IH obtain a b where "cs = a @ p @ b" by blast
      then have "c # cs = (c # a) @ p @ b" by simp
      then show ?thesis by blast
    qed
  next
    assume "\<exists>a b. c # cs = a @ p @ b"
    then obtain a b where ab: "c # cs = a @ p @ b" by blast
    show "js_includes (c # cs) p"
    proof (cases a)
      case Nil
      with ab have "prefix p (c # cs)" by (simp add: prefix_def)
      then show ?thesis by simp
    next
      case (Cons x xs)
      with ab have "cs = xs @ p @ b" by simp
      with Cons.IH show ?thesis by auto
    qed
  qed
qed

lemma js_includes_mid: "js_includes (a @ p @ b) p"
  by (auto simp: js_includes_iff)

lemma showNat_400:
  "showNat 400 = js ''400''" "showNat 401 = js ''401''" "showNat 403 = js ''403''"
  "showNat 404 = js ''404''" "showNat 3 = js ''3''"
  by (simp_all add: showNat.simps [of 400] showNat.simps [of 401] showNat.simps [of 403]
      showNat.simps [of 404] showNat.simps [of 40] showNat.simps [of 4] showNat.simps [of 3] js_def)

text \<open>
  Each condition that the specification lists gives an error whose message includes one
  of the patterns.
\<close>

lemma http_message_nonRetryable:
  assumes "n \<in> {400, 401, 403, 404}"
  shows "isNonRetryableError (js ''HTTP '' @ showNat n @ js '': '' @ st)"
proof -
  have "js_includes (js ''HTTP '' @ showNat n @ js '': '' @ st) (showNat n)"
    by (rule js_includes_mid)
  moreover have "showNat n \<in> set nonRetryablePatterns"
    using assms by (auto simp: nonRetryablePatterns_def showNat_400)
  ultimately show ?thesis
    unfolding isNonRetryableError_def list_ex_iff by blast
qed

lemma nonRetryable_fails:
  assumes "nonRetryableCondition w u a"
  shows "\<exists>e. tryAttempt w u a = (Inl e, isValidUrl w u) \<and> isNonRetryableError (lastErrorMessage e)"
proof (cases "isValidUrl w u")
  case False
  have "isNonRetryableError (js ''Invalid URL provided'')"
    by (simp add: isNonRetryableError_def nonRetryablePatterns_def js_def)
  with False show ?thesis
    by (simp add: tryAttempt_def lastErrorMessage_def)
next
  case True
  show ?thesis
  proof (cases "sendRequest w a u")
    case (Inl e)
    with assms True have "js_includes (lastErrorMessage e) (js ''ENOTFOUND'') \<or>
                  js_includes (lastErrorMessage e) (js ''ECONNREFUSED'')"
      by (simp add: nonRetryableCondition_def)
    then have "isNonRetryableError (lastErrorMessage e)"
      by (auto simp: isNonRetryableError_def nonRetryablePatterns_def)
    with Inl True show ?thesis by (simp add: tryAttempt_def)
  next
    case (Inr resp)
    with assms True have st: "status resp \<in> {400, 401, 403, 404}"
      by (simp add: nonRetryableCondition_def)
    then have "status resp \<ge> 400" by auto
    with Inr True st show ?thesis
      using http_message_nonRetryable [OF st, of "statusText resp"]
      by (simp add: tryAttempt_def lastErrorMessage_def)
  qed
qed

text \<open>One step of the loop, for each way an attempt can end.\<close>

lemma loop_break:
  assumes "tryAttempt w u a = (Inl e, f)" "isNonRetryableError (lastErrorMessage e)" "a \<le> 3"
  shows "scrapeLoop w u a le sent = PastLoop (Some (lastErrorMessage e)) a (if f then sent @ [a] else sent)"
  using assms by (subst scrapeLoop.simps) (simp add: maxRetries_def)

lemma loop_retry:
  assumes "tryAttempt w u a = (Inl e, f)" "\<not> isNonRetryableError (lastErrorMessage e)" "a \<le> 3"
  shows "scrapeLoop w u a le sent = scrapeLoop w u (a + 1) (Some (lastErrorMessage e)) (if f then sent @ [a] else sent)"
  using assms by (subst scrapeLoop.simps) (simp add: maxRetries_def)

lemma loop_return:
  assumes "tryAttempt w u a = (Inr info, f)" "a \<le> 3"
  shows "scrapeLoop w u a le sent = Returned info a (if f then sent @ [a] else sent)"
  using assms by (subst scrapeLoop.simps) (simp add: maxRetries_def)

lemma loop_end: "scrapeLoop w u 4 le sent = PastLoop le 3 sent"
  by (subst scrapeLoop.simps) (simp add: maxRetries_def)

text \<open>
  Entered at an attempt within the budget, the loop ends at that attempt or a later one,
  and never after more than three.
\<close>

lemma loop_bounds:
  "a \<le> 3 \<Longrightarrow> a \<le> attemptsOf (scrapeLoop w u a le sent) \<and> attemptsOf (scrapeLoop w u a le sent) \<le> 3"
proof (induction w u a le sent rule: scrapeLoop.induct)
  case (1 w u attempt lastError sent)
  obtain r f where rf: "tryAttempt w u attempt = (r, f)"
    by (cases "tryAttempt w u attempt")
  show ?case
  proof (cases r)
    case (Inr info)
    with rf 1(2) show ?thesis by (simp add: loop_return)
  next
    case (Inl e)
    show ?thesis
    proof (cases "isNonRetryableError (lastErrorMessage e)")
      case True
      with rf Inl 1(2) show ?thesis by (simp add: loop_break)
    next
      case False
      have step: "scrapeLoop w u attempt lastError sent =
          scrapeLoop w u (attempt + 1) (Some (lastErrorMessage e)) (if f then sent @ [attempt] else sent)"
        using rf Inl False 1(2) by (simp add: loop_retry)
      show ?thesis
      proof (cases "attempt = 3")
        case True
        then show ?thesis unfolding step by (simp add: loop_end)
      next
        case False
        with 1(2) have le: "attempt + 1 \<le> 3" by simp
        have "attempt \<le> maxRetries" using 1(2) by (simp add: maxRetries_def)
        from 1(1) [OF this rf [symmetric] Inl refl refl _ le] \<open>\<not> isNonRetryableError (lastErrorMessage e)\<close>
        show ?thesis unfolding step by simp
      qed
    qed
  qed
qed

lemma snd_tryAttempt: "snd (tryAttempt w u a) = isValidUrl w u"
  by (auto simp: tryAttempt_def split: sum.splits)

lemma failsRetryably_iff:
  "failsRetryably w u a \<longleftrightarrow>
     (\<exists>e. tryAttempt w u a = (Inl e, True) \<and> isValidUrl w u \<and> \<not> isNonRetryableError (lastErrorMessage e))"
proof -
  have inv: "isNonRetryableError (js ''Invalid URL provided'')"
    by (simp add: isNonRetryableError_def nonRetryablePatterns_def js_def)
  show ?thesis
  proof (cases "isValidUrl w u")
    case False
    with inv show ?thesis
      by (simp add: failsRetryably_def failureOf_def tryAttempt_def lastErrorMessage_def)
  next
    case True
    obtain r f where rf: "tryAttempt w u a = (r, f)" by (cases "tryAttempt w u a")
    with snd_tryAttempt [of w u a] True have "f" by simp
    with rf True show ?thesis
      by (cases r) (simp_all add: failsRetryably_def failureOf_def)
  qed
qed

lemma scrape_unfold:
  "scrapeContactInfo w u =
     (case scrapeLoop w u 1 None [] of
        Returned info n sent \<Rightarrow> \<lparr> outcome = Inr info, attemptsMade = n, requestsSent = sent \<rparr>
      | PastLoop lastError n sent \<Rightarrow>
          \<lparr> outcome = Inl (Error (js ''Failed to scrape '' @ u @ js '' after '' @ showNat maxRetries
                              @ js '' attempts: '' @ orElse lastError (js ''Unknown error''))),
            attemptsMade = n, requestsSent = sent \<rparr>)"
  by (simp add: scrapeContactInfo_def)

lemma scrape_attempts: "attemptsMade (scrapeContactInfo w u) = attemptsOf (scrapeLoop w u 1 None [])"
  unfolding scrape_unfold by (simp split: loopEnd.splits)

lemma scrape_requests: "requestsSent (scrapeContactInfo w u) = requestsOf (scrapeLoop w u 1 None [])"
  unfolding scrape_unfold by (simp split: loopEnd.splits)

lemma scrape_fails:
  "isl (outcome (scrapeContactInfo w u)) =
     (case scrapeLoop w u 1 None [] of Returned i n s \<Rightarrow> False | PastLoop l n s \<Rightarrow> True)"
  unfolding scrape_unfold by (simp split: loopEnd.splits)

lemma stops_at_first:
  assumes "nonRetryableCondition w u 1"
  shows "attemptsMade (scrapeContactInfo w u) = 1 \<and> isl (outcome (scrapeContactInfo w u)) \<and>
      requestsSent (scrapeContactInfo w u) = (if isValidUrl w u then [1] else [])"
proof -
  from nonRetryable_fails [OF assms] obtain e where
    e: "tryAttempt w u 1 = (Inl e, isValidUrl w u)" "isNonRetryableError (lastErrorMessage e)"
    by blast
  have L: "scrapeLoop w u 1 None [] =
      PastLoop (Some (lastErrorMessage e)) 1 (if isValidUrl w u then [] @ [1] else [])"
    by (rule loop_break [OF e]) simp
  show ?thesis
    unfolding scrape_attempts scrape_requests scrape_fails L by simp
qed

lemma second_attempt:
  assumes "failsRetryably w u 1"
  shows "2 \<le> attemptsMade (scrapeContactInfo w u)"
proof -
  from assms obtain e where
    e: "tryAttempt w u 1 = (Inl e, True)" "\<not> isNonRetryableError (lastErrorMessage e)"
    by (auto simp: failsRetryably_iff)
  have L: "scrapeLoop w u 1 None [] =
      scrapeLoop w u (1 + 1) (Some (lastErrorMessage e)) (if True then [] @ [1] else [])"
    by (rule loop_retry [OF e]) simp
  show ?thesis
    unfolding scrape_attempts L
    using loop_bounds [of "1 + 1" w u "Some (lastErrorMessage e)" "if True then [] @ [1] else []"]
    by simp
qed

lemma third_attempt:
  assumes "failsRetryably w u 1" "failsRetryably w u 2"
  shows "attemptsMade (scrapeContactInfo w u) = 3"
proof -
  from assms obtain e1 e2 where
    e1: "tryAttempt w u 1 = (Inl e1, True)" "\<not> isNonRetryableError (lastErrorMessage e1)" and
    e2: "tryAttempt w u 2 = (Inl e2, True)" "\<not> isNonRetryableError (lastErrorMessage e2)"
    by (auto simp: failsRetryably_iff)
  have L1: "scrapeLoop w u 1 None [] =
      scrapeLoop w u (1 + 1) (Some (lastErrorMessage e1)) (if True then [] @ [1] else [])"
    by (rule loop_retry [OF e1]) simp
  have L2: "scrapeLoop w u 2 le sent =
      scrapeLoop w u (2 + 1) (Some (lastErrorMessage e2)) (if True then sent @ [2] else sent)"
    for le sent
    by (rule loop_retry [OF e2]) simp
  have s: "(1::nat) + 1 = 2" by simp
  show ?thesis
    unfolding scrape_attempts L1 s L2
    using loop_bounds [of "2 + 1" w u "Some (lastErrorMessage e2)"
        "if True then (if True then [] @ [1] else []) @ [2] else (if True then [] @ [1] else [])"]
    by simp
qed

lemma exhausted:
  assumes "failsRetryably w u 1" "failsRetryably w u 2" "failsRetryably w u 3"
  shows "attemptsMade (scrapeContactInfo w u) = 3 \<and> isl (outcome (scrapeContactInfo w u)) \<and>
      requestsSent (scrapeContactInfo w u) = [1, 2, 3]"
proof -
  from assms obtain e1 e2 e3 where
    e1: "tryAttempt w u 1 = (Inl e1, True)" "\<not> isNonRetryableError (lastErrorMessage e1)" and
    e2: "tryAttempt w u 2 = (Inl e2, True)" "\<not> isNonRetryableError (lastErrorMessage e2)" and
    e3: "tryAttempt w u 3 = (Inl e3, True)" "\<not> isNonRetryableError (lastErrorMessage e3)"
    by (auto simp: failsRetryably_iff)
  have L1: "scrapeLoop w u 1 None [] =
      scrapeLoop w u (1 + 1) (Some (lastErrorMessage e1)) (if True then [] @ [1] else [])"
    by (rule loop_retry [OF e1]) simp
  have L2: "scrapeLoop w u 2 le sent =
      scrapeLoop w u (2 + 1) (Some (lastErrorMessage e2)) (if True then sent @ [2] else sent)"
    for le sent
    by (rule loop_retry [OF e2]) simp
  have L3: "scrapeLoop w u 3 le sent =
      scrapeLoop w u (3 + 1) (Some (lastErrorMessage e3)) (if True then sent @ [3] else sent)"
    for le sent
    by (rule loop_retry [OF e3]) simp
  have s: "(1::nat) + 1 = 2" "(2::nat) + 1 = 3" "(3::nat) + 1 = 4" by simp_all
  show ?thesis
    unfolding scrape_attempts scrape_requests scrape_fails L1 s L2 L3 loop_end by simp
qed

lemma stops_at_second:
  assumes "failsRetryably w u 1" "nonRetryableCondition w u 2"
  shows "attemptsMade (scrapeContactInfo w u) = 2"
proof -
  from assms(1) obtain e1 where
    e1: "tryAttempt w u 1 = (Inl e1, True)" "\<not> isNonRetryableError (lastErrorMessage e1)"
    by (auto simp: failsRetryably_iff)
  from nonRetryable_fails [OF assms(2)] obtain e2 where
    e2: "tryAttempt w u 2 = (Inl e2, isValidUrl w u)" "isNonRetryableError (lastErrorMessage e2)"
    by blast
  have L1: "scrapeLoop w u 1 None [] =
      scrapeLoop w u (1 + 1) (Some (lastErrorMessage e1)) (if True then [] @ [1] else [])"
    by (rule loop_retry [OF e1]) simp
  have L2: "scrapeLoop w u 2 le sent =
      PastLoop (Some (lastErrorMessage e2)) 2 (if isValidUrl w u then sent @ [2] else sent)"
    for le sent
    by (rule loop_break [OF e2]) simp
  have s: "(1::nat) + 1 = 2" by simp
  show ?thesis
    unfolding scrape_attempts L1 s L2 by simp
qed

text \<open>
  C2, as the code has it. When the first attempt meets one of the conditions that the
  specification lists as not retryable (an invalid URL; a response with status 400, 401,
  403 or 404; an error naming \<open>ENOTFOUND\<close> or \<open>ECONNREFUSED\<close>), the loop stops there: one
  attempt is made, and at most one request is sent. A failure whose message includes
  none of the seven patterns of \<open>isNonRetryableError\<close> is retried: after such a failure
  of the first attempt a second is made (and the loop stops there when the second meets
  a condition that is not retryable), after such failures of the first two a third, and
  when all three fail so the call fails after three attempts and three requests.
\<close>

theorem retry_classification:
  "(nonRetryableCondition w u 1 \<longrightarrow>
      attemptsMade (scrapeContactInfo w u) = 1 \<and> isl (outcome (scrapeContactInfo w u)) \<and>
      requestsSent (scrapeContactInfo w u) = (if isValidUrl w u then [1] else [])) \<and>
   (failsRetryably w u 1 \<longrightarrow> 2 \<le> attemptsMade (scrapeContactInfo w u)) \<and>
   (failsRetryably w u 1 \<and> nonRetryableCondition w u 2 \<longrightarrow>
      attemptsMade (scrapeContactInfo w u) = 2) \<and>
   (failsRetryably w u 1 \<and> failsRetryably w u 2 \<longrightarrow> attemptsMade (scrapeContactInfo w u) = 3) \<and>
   (failsRetryably w u 1 \<and> failsRetryably w u 2 \<and> failsRetryably w u 3 \<longrightarrow>
      attemptsMade (scrapeContactInfo w u) = 3 \<and> isl (outcome (scrapeContactInfo w u)) \<and>
      requestsSent (scrapeContactInfo w u) = [1, 2, 3])"
  using stops_at_first [of w u] second_attempt [of w u] stops_at_second [of w u]
    third_attempt [of w u] exhausted [of w u]
  by blast

lemma httpUrl_example: "httpUrl (js ''https://example.fi'')" "httpUrl (js ''http://192.0.2.1:8400/'')"
  by (simp_all add: httpUrl_def js_def)

lemma forbidden_run:
  "scrapeContactInfo forbiddenWeb (js ''https://example.fi'') =
     \<lparr> outcome = Inl (Error (js ''Failed to scrape https://example.fi after 3 attempts: HTTP 403: Forbidden'')),
       attemptsMade = 1, requestsSent = [1] \<rparr>"
proof -
  have t: "tryAttempt forbiddenWeb (js ''https://example.fi'') 1 = (Inl (Error (js ''HTTP 403: Forbidden'')), True)"
    by (simp add: tryAttempt_def forbiddenWeb_def webOf_def sendRequest_def httpUrl_example showNat_400)
       (simp add: js_def)
  have n: "isNonRetryableError (lastErrorMessage (Error (js ''HTTP 403: Forbidden'')))"
    by (simp add: lastErrorMessage_def isNonRetryableError_def nonRetryablePatterns_def js_def)
  have L: "scrapeLoop forbiddenWeb (js ''https://example.fi'') 1 None [] =
      PastLoop (Some (lastErrorMessage (Error (js ''HTTP 403: Forbidden'')))) 1 (if True then [] @ [1] else [])"
    by (rule loop_break [OF t n]) simp
  show ?thesis
    unfolding scrape_unfold L
    by (simp add: maxRetries_def showNat_400 lastErrorMessage_def orElse_def) (simp add: js_def)
qed

text \<open>Past the loop, \<open>lastError\<close> is the error of the last attempt made.\<close>

lemma loop_last_error:
  "a \<le> 3 \<Longrightarrow> scrapeLoop w u a le0 s0 = PastLoop le n s \<Longrightarrow> le = failureOf w u n"
proof (induction w u a le0 s0 rule: scrapeLoop.induct)
  case (1 w u attempt lastError sent)
  obtain r f where rf: "tryAttempt w u attempt = (r, f)"
    by (cases "tryAttempt w u attempt")
  show ?case
  proof (cases r)
    case (Inr info)
    with rf 1(2,3) show ?thesis by (simp add: loop_return)
  next
    case (Inl e)
    show ?thesis
    proof (cases "isNonRetryableError (lastErrorMessage e)")
      case True
      with rf Inl 1(2,3) show ?thesis by (auto simp: loop_break failureOf_def)
    next
      case False
      have step: "scrapeLoop w u attempt lastError sent =
          scrapeLoop w u (attempt + 1) (Some (lastErrorMessage e)) (if f then sent @ [attempt] else sent)"
        using rf Inl False 1(2) by (simp add: loop_retry)
      show ?thesis
      proof (cases "attempt = 3")
        case True
        with 1(3) rf Inl show ?thesis unfolding step by (auto simp: loop_end failureOf_def)
      next
        case False
        with 1(2) have le: "attempt + 1 \<le> 3" by simp
        have "attempt \<le> maxRetries" using 1(2) by (simp add: maxRetries_def)
        from 1(1) [OF this rf [symmetric] Inl refl refl _ le] 1(3)
          \<open>\<not> isNonRetryableError (lastErrorMessage e)\<close>
        show ?thesis unfolding step by simp
      qed
    qed
  qed
qed

text \<open>
  Every failure of \<open>scrapeContactInfo\<close> has this message: the count in it is always 3,
  and the message after it is that of the error of the last attempt made.
\<close>

lemma failure_message:
  assumes "outcome (scrapeContactInfo w u) = Inl e"
  shows "e = Error (js ''Failed to scrape '' @ u @ js '' after 3 attempts: '' @
                    orElse (failureOf w u (attemptsMade (scrapeContactInfo w u))) (js ''Unknown error''))"
proof (cases "scrapeLoop w u 1 None []")
  case (Returned i n s)
  with assms show ?thesis unfolding scrape_unfold by simp
next
  case (PastLoop le n s)
  have "le = failureOf w u n"
    by (rule loop_last_error [OF _ PastLoop]) simp
  with assms PastLoop show ?thesis
    unfolding scrape_unfold by (auto simp: maxRetries_def showNat_400 js_def)
qed

text \<open>
  C3 at a URL whose first request is answered with 403 Forbidden: one attempt is made,
  and the message of the error that is thrown carries the last error's message but says
  \<open>after 3 attempts\<close>, the value of \<open>maxRetries\<close>.
\<close>

theorem scrape_403_says_three_attempts:
  "scrapeContactInfo forbiddenWeb (js ''https://example.fi'') =
     \<lparr> outcome = Inl (Error (js ''Failed to scrape https://example.fi after 3 attempts: HTTP 403: Forbidden'')),
       attemptsMade = 1, requestsSent = [1] \<rparr>"
  by (rule forbidden_run)

lemma port_run:
  "scrapeContactInfo portWeb (js ''http://192.0.2.1:8400/'') =
     \<lparr> outcome = Inl (Error (js ''Failed to scrape http://192.0.2.1:8400/ after 3 attempts: connect ETIMEDOUT 192.0.2.1:8400'')),
       attemptsMade = 1, requestsSent = [1] \<rparr>"
proof -
  have t: "tryAttempt portWeb (js ''http://192.0.2.1:8400/'') 1 =
      (Inl (Error (js ''connect ETIMEDOUT 192.0.2.1:8400'')), True)"
    by (simp add: tryAttempt_def portWeb_def webOf_def sendRequest_def httpUrl_example)
  have n: "isNonRetryableError (lastErrorMessage (Error (js ''connect ETIMEDOUT 192.0.2.1:8400'')))"
    by (simp add: lastErrorMessage_def isNonRetryableError_def nonRetryablePatterns_def js_def)
  have L: "scrapeLoop portWeb (js ''http://192.0.2.1:8400/'') 1 None [] =
      PastLoop (Some (lastErrorMessage (Error (js ''connect ETIMEDOUT 192.0.2.1:8400'')))) 1
        (if True then [] @ [1] else [])"
    by (rule loop_break [OF t n]) simp
  show ?thesis
    unfolding scrape_unfold L
    by (simp add: maxRetries_def showNat_400 lastErrorMessage_def orElse_def) (simp add: js_def)
qed

text \<open>
  C2 as the claim words it fails on the failures it calls retried: a connection timeout
  to \<open>192.0.2.1:8400\<close> is none of the listed conditions, but its message includes \<open>400\<close>,
  and the loop stops after the first attempt although the next request would succeed.
\<close>

theorem retry_port_counterexample:
  "\<not> nonRetryableCondition portWeb (js ''http://192.0.2.1:8400/'') 1 \<and>
   failureOf portWeb (js ''http://192.0.2.1:8400/'') 1 = Some (js ''connect ETIMEDOUT 192.0.2.1:8400'') \<and>
   attemptsMade (scrapeContactInfo portWeb (js ''http://192.0.2.1:8400/'')) = 1 \<and>
   requestsSent (scrapeContactInfo portWeb (js ''http://192.0.2.1:8400/'')) = [1]"
proof -
  have "\<not> nonRetryableCondition portWeb (js ''http://192.0.2.1:8400/'') 1"
    by (simp add: nonRetryableCondition_def portWeb_def webOf_def sendRequest_def httpUrl_example
        lastErrorMessage_def) (simp add: js_def)
  moreover have "failureOf portWeb (js ''http://192.0.2.1:8400/'') 1 =
      Some (js ''connect ETIMEDOUT 192.0.2.1:8400'')"
    by (simp add: failureOf_def tryAttempt_def portWeb_def webOf_def sendRequest_def httpUrl_example
        lastErrorMessage_def)
  ultimately show ?thesis
    by (simp add: port_run)
qed

text \<open>
  The world that answers 403 meets the first case; the world of axios timeouts meets
  the last.
\<close>

theorem retry_classification_witness:
  "nonRetryableCondition forbiddenWeb (js ''https://example.fi'') 1 \<and>
   attemptsMade (scrapeContactInfo forbiddenWeb (js ''https://example.fi'')) = 1 \<and>
   requestsSent (scrapeContactInfo forbiddenWeb (js ''https://example.fi'')) = [1] \<and>
   failsRetryably timeoutWeb (js ''https://example.fi'') 1 \<and>
   failsRetryably timeoutWeb (js ''https://example.fi'') 2 \<and>
   failsRetryably timeoutWeb (js ''https://example.fi'') 3 \<and>
   attemptsMade (scrapeContactInfo timeoutWeb (js ''https://example.fi'')) = 3 \<and>
   requestsSent (scrapeContactInfo timeoutWeb (js ''https://example.fi'')) = [1, 2, 3]"
proof -
  have a: "nonRetryableCondition forbiddenWeb (js ''https://example.fi'') 1"
    by (simp add: nonRetryableCondition_def forbiddenWeb_def webOf_def sendRequest_def httpUrl_example)
  have b: "failsRetryably timeoutWeb (js ''https://example.fi'') 1"
    "failsRetryably timeoutWeb (js ''https://example.fi'') 2"
    "failsRetryably timeoutWeb (js ''https://example.fi'') 3"
    by (simp_all add: failsRetryably_def failureOf_def tryAttempt_def timeoutWeb_def webOf_def
        sendRequest_def httpUrl_def lastErrorMessage_def isNonRetryableError_def
        nonRetryablePatterns_def js_def)
  show ?thesis
    using a b retry_classification [of forbiddenWeb "js ''https://example.fi''"]
      retry_classification [of timeoutWeb "js ''https://example.fi''"]
    by (simp add: forbiddenWeb_def webOf_def httpUrl_example)
qed

section \<open>The batch endpoint and the upload endpoint\<close>

text \<open>
  The chunks, one after the other, are the URLs of the batch, and no chunk is longer than
  the concurrency limit.
\<close>

lemma chunkLoop_concat: "concat (chunkLoop i urls chunks) = concat chunks @ drop i urls"
proof (induction i urls chunks rule: chunkLoop.induct)
  case (1 i urls chunks)
  show ?case
  proof (cases "i < length urls")
    case True
    have d: "drop (i + concurrencyLimit) urls = drop concurrencyLimit (drop i urls)"
      by (simp add: add.commute)
    have "slice i (i + concurrencyLimit) urls @ drop (i + concurrencyLimit) urls = drop i urls"
      unfolding d slice_def by (simp del: drop_drop)
    with 1 [OF True] True show ?thesis
      by (subst chunkLoop.simps) simp
  next
    case False
    then show ?thesis by (subst chunkLoop.simps) simp
  qed
qed

lemma chunkLoop_bounded:
  "\<forall>c\<in>set chunks. length c \<le> concurrencyLimit \<Longrightarrow>
   \<forall>c\<in>set (chunkLoop i urls chunks). length c \<le> concurrencyLimit"
proof (induction i urls chunks rule: chunkLoop.induct)
  case (1 i urls chunks)
  show ?case
  proof (cases "i < length urls")
    case True
    have "\<forall>c\<in>set (chunks @ [slice i (i + concurrencyLimit) urls]). length c \<le> concurrencyLimit"
      using 1(2) by (auto simp: slice_def)
    from 1(1) [OF True this] True show ?thesis
      by (subst chunkLoop.simps) simp
  next
    case False
    with 1(2) show ?thesis by (subst chunkLoop.simps) simp
  qed
qed

lemma zip_upt_append:
  "zip [i ..< i + length (xs @ ys)] (xs @ ys) =
     zip [i ..< i + length xs] xs @ zip [i + length xs ..< i + length xs + length ys] ys"
proof -
  have "[i ..< (i + length xs) + length ys] =
      [i ..< i + length xs] @ [i + length xs ..< i + length xs + length ys]"
    by (rule upt_add_eq_append) simp
  moreover have "i + length (xs @ ys) = (i + length xs) + length ys"
    by simp
  ultimately have "[i ..< i + length (xs @ ys)] =
      [i ..< i + length xs] @ [i + length xs ..< i + length xs + length ys]"
    by (simp only:)
  then show ?thesis
    by (simp only: zip_append length_upt add_diff_cancel_left')
qed

text \<open>
  The second loop runs the task of every URL, numbered by its position in the batch, and
  gives the results in that order; its log holds what each of these tasks sent, chunk by
  chunk.
\<close>

lemma zip_upt_concat:
  "zip [i ..< i + length (concat (chunk # rest))] (concat (chunk # rest)) =
      zip [i ..< i + length chunk] chunk @
      zip [i + length chunk ..< i + length chunk + length (concat rest)] (concat rest)"
  using zip_upt_append [of i chunk "concat rest"] by simp

lemma chunksLoop_results:
  "fst (chunksLoop webAt now chunks i results logs) =
     results @ map (\<lambda>(k, u). chunkTask webAt now k u)
                   (zip [i ..< i + length (concat chunks)] (concat chunks))"
proof (induction chunks arbitrary: i results logs)
  case Nil
  then show ?case by simp
next
  case (Cons chunk rest)
  have "fst (chunksLoop webAt now (chunk # rest) i results logs) =
      fst (chunksLoop webAt now rest (i + length chunk)
        (results @ map (\<lambda>(k, u). chunkTask webAt now k u) (zip [i ..< i + length chunk] chunk))
        (logs @ [map (\<lambda>(k, u). chunkTaskRequests webAt k u) (zip [i ..< i + length chunk] chunk)]))"
    by (simp add: Let_def)
  also have "\<dots> =
      (results @ map (\<lambda>(k, u). chunkTask webAt now k u) (zip [i ..< i + length chunk] chunk)) @
        map (\<lambda>(k, u). chunkTask webAt now k u)
          (zip [i + length chunk ..< i + length chunk + length (concat rest)] (concat rest))"
    by (rule Cons.IH)
  finally show ?case
    unfolding zip_upt_concat by (simp only: map_append append_assoc)
qed

lemma chunksLoop_logs:
  "concat (snd (chunksLoop webAt now chunks i results logs)) =
     concat logs @ map (\<lambda>(k, u). chunkTaskRequests webAt k u)
                       (zip [i ..< i + length (concat chunks)] (concat chunks))"
proof (induction chunks arbitrary: i results logs)
  case Nil
  then show ?case by simp
next
  case (Cons chunk rest)
  have "concat (snd (chunksLoop webAt now (chunk # rest) i results logs)) =
      concat (snd (chunksLoop webAt now rest (i + length chunk)
        (results @ map (\<lambda>(k, u). chunkTask webAt now k u) (zip [i ..< i + length chunk] chunk))
        (logs @ [map (\<lambda>(k, u). chunkTaskRequests webAt k u) (zip [i ..< i + length chunk] chunk)])))"
    by (simp add: Let_def)
  also have "\<dots> =
      concat (logs @ [map (\<lambda>(k, u). chunkTaskRequests webAt k u) (zip [i ..< i + length chunk] chunk)]) @
        map (\<lambda>(k, u). chunkTaskRequests webAt k u)
          (zip [i + length chunk ..< i + length chunk + length (concat rest)] (concat rest))"
    by (rule Cons.IH)
  finally show ?case
    unfolding zip_upt_concat by (simp only: map_append concat_append concat.simps append_assoc append_Nil2)
qed

lemma chunksLoop_sizes:
  "map length (snd (chunksLoop webAt now chunks i results logs)) = map length logs @ map length chunks"
proof (induction chunks arbitrary: i results logs)
  case Nil
  then show ?case by simp
next
  case (Cons chunk rest)
  have "map length (snd (chunksLoop webAt now (chunk # rest) i results logs)) =
      map length (snd (chunksLoop webAt now rest (i + length chunk)
        (results @ map (\<lambda>(k, u). chunkTask webAt now k u) (zip [i ..< i + length chunk] chunk))
        (logs @ [map (\<lambda>(k, u). chunkTaskRequests webAt k u) (zip [i ..< i + length chunk] chunk)])))"
    by (simp add: Let_def)
  also have "\<dots> =
      map length (logs @ [map (\<lambda>(k, u). chunkTaskRequests webAt k u) (zip [i ..< i + length chunk] chunk)]) @
        map length rest"
    by (rule Cons.IH)
  finally show ?case by simp
qed

lemma chunkLoop_nonempty:
  "\<forall>c\<in>set chunks. c \<noteq> [] \<Longrightarrow> \<forall>c\<in>set (chunkLoop i urls chunks). c \<noteq> []"
proof (induction i urls chunks rule: chunkLoop.induct)
  case (1 i urls chunks)
  show ?case
  proof (cases "i < length urls")
    case True
    have "\<forall>c\<in>set (chunks @ [slice i (i + concurrencyLimit) urls]). c \<noteq> []"
      using 1(2) True by (auto simp: slice_def concurrencyLimit_def)
    from 1(1) [OF True this] True show ?thesis
      by (subst chunkLoop.simps) simp
  next
    case False
    with 1(2) show ?thesis by (subst chunkLoop.simps) simp
  qed
qed

lemma PUT_results:
  assumes "length urls \<le> 50"
  shows "fst (PUT webAt now (Body (UrlArray urls))) =
     NextResponse 200 (ResultsBody (map (\<lambda>(k, u). chunkTask webAt now k u) (zip [0 ..< length urls] urls)))"
proof -
  have c: "concat (chunkLoop 0 urls []) = urls"
    by (simp add: chunkLoop_concat)
  have "fst (PUT webAt now (Body (UrlArray urls))) =
      NextResponse 200 (ResultsBody (fst (chunksLoop webAt now (chunkLoop 0 urls []) 0 [] [])))"
    using assms by (simp add: PUT_def split: prod.splits)
  then show ?thesis
    by (simp add: chunksLoop_results c)
qed

lemma PUT_logs:
  assumes "length urls \<le> 50"
  shows "concat (snd (PUT webAt now (Body (UrlArray urls)))) =
     map (\<lambda>(k, u). chunkTaskRequests webAt k u) (zip [0 ..< length urls] urls)"
    and "\<forall>c\<in>set (snd (PUT webAt now (Body (UrlArray urls)))). 0 < length c \<and> length c \<le> concurrencyLimit"
proof -
  have c: "concat (chunkLoop 0 urls []) = urls"
    by (simp add: chunkLoop_concat)
  have s: "snd (PUT webAt now (Body (UrlArray urls))) =
      snd (chunksLoop webAt now (chunkLoop 0 urls []) 0 [] [])"
    using assms by (simp add: PUT_def split: prod.splits)
  show "concat (snd (PUT webAt now (Body (UrlArray urls)))) =
     map (\<lambda>(k, u). chunkTaskRequests webAt k u) (zip [0 ..< length urls] urls)"
    unfolding s by (simp add: chunksLoop_logs c)
  have "map length (snd (PUT webAt now (Body (UrlArray urls)))) = map length (chunkLoop 0 urls [])"
    unfolding s by (simp add: chunksLoop_sizes)
  moreover have "\<forall>n\<in>set (map length (chunkLoop 0 urls [])). 0 < n \<and> n \<le> concurrencyLimit"
    using chunkLoop_bounded [of "[]" 0 urls] chunkLoop_nonempty [of "[]" 0 urls] by auto
  ultimately have "\<forall>n\<in>set (map length (snd (PUT webAt now (Body (UrlArray urls))))). 0 < n \<and> n \<le> concurrencyLimit"
    by simp
  then show "\<forall>c\<in>set (snd (PUT webAt now (Body (UrlArray urls)))). 0 < length c \<and> length c \<le> concurrencyLimit"
    by simp
qed

text \<open>
  A call of \<open>scrapeContactInfo\<close> on a valid URL sends the request of the first attempt.
\<close>

lemma requests_prefix: "prefix sent (requestsOf (scrapeLoop w u a le sent))"
proof (induction w u a le sent rule: scrapeLoop.induct)
  case (1 w u attempt lastError sent)
  show ?case
  proof (cases "attempt \<le> maxRetries")
    case False
    then show ?thesis by (subst scrapeLoop.simps) simp
  next
    case True
    obtain r f where rf: "tryAttempt w u attempt = (r, f)"
      by (cases "tryAttempt w u attempt")
    show ?thesis
    proof (cases r)
      case (Inr info)
      with rf True show ?thesis by (subst scrapeLoop.simps) simp
    next
      case (Inl e)
      show ?thesis
      proof (cases "isNonRetryableError (lastErrorMessage e)")
        case True
        with rf Inl \<open>attempt \<le> maxRetries\<close> show ?thesis by (subst scrapeLoop.simps) simp
      next
        case False
        from 1 [OF True rf [symmetric] Inl refl refl False]
        have "prefix (if f then sent @ [attempt] else sent)
            (requestsOf (scrapeLoop w u (attempt + 1) (Some (lastErrorMessage e))
               (if f then sent @ [attempt] else sent)))" .
        moreover have "prefix sent (if f then sent @ [attempt] else sent)" by simp
        ultimately have "prefix sent
            (requestsOf (scrapeLoop w u (attempt + 1) (Some (lastErrorMessage e))
               (if f then sent @ [attempt] else sent)))"
          using prefix_order.order_trans by blast
        with rf Inl False True show ?thesis by (subst scrapeLoop.simps) (simp add: Let_def)
      qed
    qed
  qed
qed

lemma first_request:
  assumes "isValidUrl w u"
  shows "prefix [1] (requestsSent (scrapeContactInfo w u))"
proof -
  obtain r where r: "tryAttempt w u 1 = (r, True)"
    using snd_tryAttempt [of w u 1] assms by (cases "tryAttempt w u 1") simp
  have "requestsOf (scrapeLoop w u 1 None []) =
        requestsOf (case r of
           Inr info \<Rightarrow> Returned info 1 [1]
         | Inl e \<Rightarrow> if isNonRetryableError (lastErrorMessage e) then PastLoop (Some (lastErrorMessage e)) 1 [1]
                    else scrapeLoop w u (1 + 1) (Some (lastErrorMessage e)) [1])"
    using r by (subst scrapeLoop.simps) (simp add: maxRetries_def Let_def split: sum.splits)
  also have "prefix [1] \<dots>"
    using requests_prefix [of "[1]" w u "1 + 1"] by (simp split: sum.splits)
  finally show ?thesis
    unfolding scrape_requests .
qed

lemma scrape_throws_Error:
  "outcome (scrapeContactInfo w u) = Inl e \<Longrightarrow> \<exists>m. e = Error m"
  using failure_message [of w u e] by blast

lemma url_chunkTask: "url (chunkTask webAt now i u) = u"
  by (simp add: chunkTask_def split: sum.splits)

lemma chunkTask_fields:
  "url (chunkTask webAt now i u) = u \<and>
   (case outcome (scrapeContactInfo (webAt i) u) of
      Inr d \<Rightarrow> success (chunkTask webAt now i u) \<and> data (chunkTask webAt now i u) = Some d \<and>
               error (chunkTask webAt now i u) = None
    | Inl e \<Rightarrow> \<not> success (chunkTask webAt now i u) \<and> data (chunkTask webAt now i u) = None \<and>
               (\<exists>m. e = Error m \<and> error (chunkTask webAt now i u) = Some m))"
proof (cases "outcome (scrapeContactInfo (webAt i) u)")
  case (Inl e)
  with scrape_throws_Error [OF Inl] show ?thesis
    by (auto simp: chunkTask_def)
next
  case (Inr d)
  then show ?thesis by (simp add: chunkTask_def)
qed

text \<open>
  C1. For every batch of at most 50 URLs the endpoint answers 200 with a list of results
  that has one result per URL, in the order of the input. The result at position \<open>i\<close> is
  what the task of URL \<open>i\<close> produces from its own call of \<open>scrapeContactInfo\<close> alone: it
  carries that URL, and when the call throws, the result has \<open>success\<close> false, no data and
  the message of the error thrown, whatever the other calls do.
\<close>

theorem batch_one_result_per_url:
  assumes "length urls \<le> 50"
  shows "\<exists>results. fst (PUT webAt now (Body (UrlArray urls))) = NextResponse 200 (ResultsBody results) \<and>
     length results = length urls \<and>
     (\<forall>i<length urls.
        results ! i = chunkTask webAt now i (urls ! i) \<and>
        url (results ! i) = urls ! i \<and>
        (case outcome (scrapeContactInfo (webAt i) (urls ! i)) of
           Inr d \<Rightarrow> success (results ! i) \<and> data (results ! i) = Some d \<and> error (results ! i) = None
         | Inl e \<Rightarrow> \<not> success (results ! i) \<and> data (results ! i) = None \<and>
                    (\<exists>m. e = Error m \<and> error (results ! i) = Some m)))"
proof -
  let ?rs = "map (\<lambda>(k, u). chunkTask webAt now k u) (zip [0 ..< length urls] urls)"
  have r: "fst (PUT webAt now (Body (UrlArray urls))) = NextResponse 200 (ResultsBody ?rs)"
    by (rule PUT_results [OF assms])
  have n: "length ?rs = length urls" by simp
  have i: "?rs ! i = chunkTask webAt now i (urls ! i)" if "i < length urls" for i
    using that by simp
  have "\<forall>i<length urls.
        ?rs ! i = chunkTask webAt now i (urls ! i) \<and>
        url (?rs ! i) = urls ! i \<and>
        (case outcome (scrapeContactInfo (webAt i) (urls ! i)) of
           Inr d \<Rightarrow> success (?rs ! i) \<and> data (?rs ! i) = Some d \<and> error (?rs ! i) = None
         | Inl e \<Rightarrow> \<not> success (?rs ! i) \<and> data (?rs ! i) = None \<and>
                    (\<exists>m. e = Error m \<and> error (?rs ! i) = Some m))"
  proof (intro allI impI)
    fix k assume k: "k < length urls"
    show "?rs ! k = chunkTask webAt now k (urls ! k) \<and>
        url (?rs ! k) = urls ! k \<and>
        (case outcome (scrapeContactInfo (webAt k) (urls ! k)) of
           Inr d \<Rightarrow> success (?rs ! k) \<and> data (?rs ! k) = Some d \<and> error (?rs ! k) = None
         | Inl e \<Rightarrow> \<not> success (?rs ! k) \<and> data (?rs ! k) = None \<and>
                    (\<exists>m. e = Error m \<and> error (?rs ! k) = Some m))"
      unfolding i [OF k] using chunkTask_fields [of webAt now k "urls ! k"] by simp
  qed
  with r n show ?thesis by blast
qed

lemma invalid_run:
  "scrapeContactInfo okWeb (js ''example.fi'') =
     \<lparr> outcome = Inl (Error (js ''Failed to scrape example.fi after 3 attempts: Invalid URL provided'')),
       attemptsMade = 1, requestsSent = [] \<rparr>"
proof -
  have t: "tryAttempt okWeb (js ''example.fi'') 1 = (Inl (Error (js ''Invalid URL provided'')), False)"
    by (simp add: tryAttempt_def okWeb_def webOf_def httpUrl_def js_def)
  have n: "isNonRetryableError (lastErrorMessage (Error (js ''Invalid URL provided'')))"
    by (simp add: lastErrorMessage_def isNonRetryableError_def nonRetryablePatterns_def js_def)
  have L: "scrapeLoop okWeb (js ''example.fi'') 1 None [] =
      PastLoop (Some (lastErrorMessage (Error (js ''Invalid URL provided'')))) 1
        (if False then [] @ [1] else [])"
    by (rule loop_break [OF t n]) simp
  show ?thesis
    unfolding scrape_unfold L
    by (simp add: maxRetries_def showNat_400 lastErrorMessage_def orElse_def) (simp add: js_def)
qed

lemma ok_run:
  "scrapeContactInfo okWeb (js ''https://example.fi'') =
     \<lparr> outcome = Inr emptyInfo, attemptsMade = 1, requestsSent = [1] \<rparr>"
proof -
  have t: "tryAttempt okWeb (js ''https://example.fi'') 1 = (Inr emptyInfo, True)"
    by (simp add: tryAttempt_def okWeb_def webOf_def sendRequest_def httpUrl_example okResponse_def)
  have L: "scrapeLoop okWeb (js ''https://example.fi'') 1 None [] =
      Returned emptyInfo 1 (if True then [] @ [1] else [])"
    by (rule loop_return [OF t]) simp
  show ?thesis
    unfolding scrape_unfold L by simp
qed

text \<open>
  A batch of an invalid URL followed by a URL that answers: the first result is the
  failure of the first URL, the second the success of the second.
\<close>

theorem batch_one_result_per_url_witness:
  "length [js ''example.fi'', js ''https://example.fi''] \<le> 50 \<and>
   fst (PUT (\<lambda>i. okWeb) noon (Body (UrlArray [js ''example.fi'', js ''https://example.fi'']))) =
     NextResponse 200 (ResultsBody
       [\<lparr> url = js ''example.fi'', success = False, data = None,
          error = Some (js ''Failed to scrape example.fi after 3 attempts: Invalid URL provided''),
          timestamp = noon 0 \<rparr>,
        \<lparr> url = js ''https://example.fi'', success = True, data = Some emptyInfo, error = None,
          timestamp = noon 1 \<rparr>])"
proof -
  let ?urls = "[js ''example.fi'', js ''https://example.fi'']"
  have len: "length ?urls \<le> 50" by simp
  from batch_one_result_per_url [OF len, of "\<lambda>i. okWeb" noon] obtain results where
    r: "fst (PUT (\<lambda>i. okWeb) noon (Body (UrlArray ?urls))) = NextResponse 200 (ResultsBody results)"
    and n: "length results = length ?urls"
    and i: "\<forall>i<length ?urls. results ! i = chunkTask (\<lambda>i. okWeb) noon i (?urls ! i)"
    by blast
  from i have "results ! 0 = chunkTask (\<lambda>i. okWeb) noon 0 (js ''example.fi'')"
    and "results ! 1 = chunkTask (\<lambda>i. okWeb) noon 1 (js ''https://example.fi'')"
    by simp_all
  with n have "results = [chunkTask (\<lambda>i. okWeb) noon 0 (js ''example.fi''),
                          chunkTask (\<lambda>i. okWeb) noon 1 (js ''https://example.fi'')]"
    by (auto simp: list_eq_iff_nth_eq less_Suc_eq)
  then show ?thesis
    unfolding r by (simp add: chunkTask_def invalid_run ok_run)
qed

text \<open>
  C8. A batch of more than 50 URLs, so one of 51, is answered with 400 and nothing is
  logged as sent. A batch of at most 50, so one of exactly 50, is answered with 200 and is
  processed: every URL has its result at its position, which is a success with the data
  or a failure with the message according to what the call of \<open>scrapeContactInfo\<close> for
  that URL gives; the log holds for every URL, in chunks of one to five tasks, the
  requests that this call sent; and for a valid URL this call sends at least the
  request of the first attempt.
\<close>

theorem batch_size_limit:
  "(50 < length urls \<longrightarrow>
      PUT webAt now (Body (UrlArray urls)) =
        (NextResponse 400 (ErrorBody (js ''Maximum 50 URLs allowed per batch'')), [])) \<and>
   (length urls \<le> 50 \<longrightarrow>
      (\<exists>results. fst (PUT webAt now (Body (UrlArray urls))) = NextResponse 200 (ResultsBody results) \<and>
         length results = length urls \<and>
         (\<forall>i<length urls.
            url (results ! i) = urls ! i \<and>
            (case outcome (scrapeContactInfo (webAt i) (urls ! i)) of
               Inr d \<Rightarrow> success (results ! i) \<and> data (results ! i) = Some d \<and> error (results ! i) = None
             | Inl e \<Rightarrow> \<not> success (results ! i) \<and> data (results ! i) = None \<and>
                        (\<exists>m. e = Error m \<and> error (results ! i) = Some m)))) \<and>
      concat (snd (PUT webAt now (Body (UrlArray urls)))) =
        map (\<lambda>i. (urls ! i, requestsSent (scrapeContactInfo (webAt i) (urls ! i)))) [0 ..< length urls] \<and>
      (\<forall>c\<in>set (snd (PUT webAt now (Body (UrlArray urls)))). 0 < length c \<and> length c \<le> 5) \<and>
      (\<forall>i<length urls. isValidUrl (webAt i) (urls ! i) \<longrightarrow>
         prefix [1] (requestsSent (scrapeContactInfo (webAt i) (urls ! i)))))"
proof (intro conjI impI)
  assume "50 < length urls"
  then show "PUT webAt now (Body (UrlArray urls)) =
        (NextResponse 400 (ErrorBody (js ''Maximum 50 URLs allowed per batch'')), [])"
    by (simp add: PUT_def)
next
  assume a: "length urls \<le> 50"
  let ?rs = "map (\<lambda>(k, u). chunkTask webAt now k u) (zip [0 ..< length urls] urls)"
  have i: "?rs ! i = chunkTask webAt now i (urls ! i)" if "i < length urls" for i
    using that by simp
  have "\<forall>i<length urls.
            url (?rs ! i) = urls ! i \<and>
            (case outcome (scrapeContactInfo (webAt i) (urls ! i)) of
               Inr d \<Rightarrow> success (?rs ! i) \<and> data (?rs ! i) = Some d \<and> error (?rs ! i) = None
             | Inl e \<Rightarrow> \<not> success (?rs ! i) \<and> data (?rs ! i) = None \<and>
                        (\<exists>m. e = Error m \<and> error (?rs ! i) = Some m))"
  proof (intro allI impI)
    fix k assume k: "k < length urls"
    show "url (?rs ! k) = urls ! k \<and>
            (case outcome (scrapeContactInfo (webAt k) (urls ! k)) of
               Inr d \<Rightarrow> success (?rs ! k) \<and> data (?rs ! k) = Some d \<and> error (?rs ! k) = None
             | Inl e \<Rightarrow> \<not> success (?rs ! k) \<and> data (?rs ! k) = None \<and>
                        (\<exists>m. e = Error m \<and> error (?rs ! k) = Some m))"
      unfolding i [OF k] using chunkTask_fields [of webAt now k "urls ! k"] by simp
  qed
  moreover have "length ?rs = length urls" by simp
  ultimately show "\<exists>results. fst (PUT webAt now (Body (UrlArray urls))) = NextResponse 200 (ResultsBody results) \<and>
         length results = length urls \<and>
         (\<forall>i<length urls.
            url (results ! i) = urls ! i \<and>
            (case outcome (scrapeContactInfo (webAt i) (urls ! i)) of
               Inr d \<Rightarrow> success (results ! i) \<and> data (results ! i) = Some d \<and> error (results ! i) = None
             | Inl e \<Rightarrow> \<not> success (results ! i) \<and> data (results ! i) = None \<and>
                        (\<exists>m. e = Error m \<and> error (results ! i) = Some m)))"
    using PUT_results [OF a, of webAt now] by blast
next
  assume a: "length urls \<le> 50"
  have "map (\<lambda>(k, u). chunkTaskRequests webAt k u) (zip [0 ..< length urls] urls) =
        map (\<lambda>i. (urls ! i, requestsSent (scrapeContactInfo (webAt i) (urls ! i)))) [0 ..< length urls]"
    by (rule nth_equalityI) (simp_all add: chunkTaskRequests_def)
  then show "concat (snd (PUT webAt now (Body (UrlArray urls)))) =
        map (\<lambda>i. (urls ! i, requestsSent (scrapeContactInfo (webAt i) (urls ! i)))) [0 ..< length urls]"
    using PUT_logs(1) [OF a, of webAt now] by simp
next
  assume a: "length urls \<le> 50"
  show "\<forall>c\<in>set (snd (PUT webAt now (Body (UrlArray urls)))). 0 < length c \<and> length c \<le> 5"
    using PUT_logs(2) [OF a, of webAt now] by (simp add: concurrencyLimit_def)
next
  assume "length urls \<le> 50"
  show "\<forall>i<length urls. isValidUrl (webAt i) (urls ! i) \<longrightarrow>
         prefix [1] (requestsSent (scrapeContactInfo (webAt i) (urls ! i)))"
    using first_request by blast
qed

text \<open>
  A batch of 51 copies of a URL is refused; a batch of 50 copies, in a world where every
  request is answered, gives 50 successes, and each of the 50 tasks sent one request.
\<close>

theorem batch_size_limit_witness:
  "50 < length (replicate 51 (js ''https://example.fi'')) \<and>
   PUT (\<lambda>i. okWeb) noon (Body (UrlArray (replicate 51 (js ''https://example.fi'')))) =
     (NextResponse 400 (ErrorBody (js ''Maximum 50 URLs allowed per batch'')), []) \<and>
   length (replicate 50 (js ''https://example.fi'')) \<le> 50 \<and>
   (\<exists>results. fst (PUT (\<lambda>i. okWeb) noon (Body (UrlArray (replicate 50 (js ''https://example.fi''))))) =
                NextResponse 200 (ResultsBody results) \<and>
              length results = 50 \<and> url (results ! 49) = js ''https://example.fi'' \<and>
              success (results ! 49) \<and> data (results ! 49) = Some emptyInfo) \<and>
   concat (snd (PUT (\<lambda>i. okWeb) noon (Body (UrlArray (replicate 50 (js ''https://example.fi'')))))) =
     replicate 50 (js ''https://example.fi'', [1])"
proof -
  let ?u = "js ''https://example.fi''"
  note t51 = batch_size_limit [of "replicate 51 ?u" "\<lambda>i. okWeb" noon]
  note t50 = batch_size_limit [of "replicate 50 ?u" "\<lambda>i. okWeb" noon]
  have a: "PUT (\<lambda>i. okWeb) noon (Body (UrlArray (replicate 51 ?u))) =
     (NextResponse 400 (ErrorBody (js ''Maximum 50 URLs allowed per batch'')), [])"
    using t51 by simp
  from t50 obtain results where
    r: "fst (PUT (\<lambda>i. okWeb) noon (Body (UrlArray (replicate 50 ?u)))) = NextResponse 200 (ResultsBody results)"
    and n: "length results = 50"
    and f: "\<forall>i<50. url (results ! i) = replicate 50 ?u ! i \<and>
            (case outcome (scrapeContactInfo okWeb (replicate 50 ?u ! i)) of
               Inr d \<Rightarrow> success (results ! i) \<and> data (results ! i) = Some d \<and> error (results ! i) = None
             | Inl e \<Rightarrow> \<not> success (results ! i) \<and> data (results ! i) = None \<and>
                        (\<exists>m. e = Error m \<and> error (results ! i) = Some m))"
    by auto
  from f have "url (results ! 49) = ?u \<and> success (results ! 49) \<and> data (results ! 49) = Some emptyInfo"
    by (simp add: ok_run)
  with r n have b: "\<exists>results. fst (PUT (\<lambda>i. okWeb) noon (Body (UrlArray (replicate 50 ?u)))) =
                NextResponse 200 (ResultsBody results) \<and>
              length results = 50 \<and> url (results ! 49) = ?u \<and>
              success (results ! 49) \<and> data (results ! 49) = Some emptyInfo"
    by blast
  have "concat (snd (PUT (\<lambda>i. okWeb) noon (Body (UrlArray (replicate 50 ?u))))) =
      map (\<lambda>i. (replicate 50 ?u ! i, requestsSent (scrapeContactInfo okWeb (replicate 50 ?u ! i)))) [0 ..< 50]"
    using t50 by simp
  also have "\<dots> = replicate 50 (?u, [1])"
    by (rule nth_equalityI) (simp_all add: ok_run)
  finally have c: "concat (snd (PUT (\<lambda>i. okWeb) noon (Body (UrlArray (replicate 50 ?u))))) =
      replicate 50 (?u, [1])" .
  from a b c show ?thesis by simp
qed

text \<open>
  C10. A batch whose \<open>urls\<close> is the empty array is answered with 200 and an empty list of
  results, and no request is sent. The upload endpoint answers 400 whenever the file
  holds no valid URL; for a \<open>.csv\<close> file within the size limit the answer is the error
  \<open>No valid URLs found in CSV file\<close>.
\<close>

theorem empty_batch_accepted:
  "PUT webAt now (Body (UrlArray [])) = (NextResponse 200 (ResultsBody []), []) \<and>
   (parseCSVUrls valid (fileText file) = [] \<longrightarrow>
      httpStatus (uploadPOST valid (Form (Some file))) = 400) \<and>
   (parseCSVUrls valid (fileText file) = [] \<and> endsWith (fileName file) (js ''.csv'') \<and>
    fileSize file \<le> 5 * 1024 * 1024 \<longrightarrow>
      uploadPOST valid (Form (Some file)) =
        NextResponse 400 (ErrorBody (js ''No valid URLs found in CSV file'')))"
proof -
  have "PUT webAt now (Body (UrlArray [])) = (NextResponse 200 (ResultsBody []), [])"
    by (simp add: PUT_def chunkLoop.simps [of 0 "[]"])
  then show ?thesis
    by (simp add: uploadPOST_def)
qed

lemma bad_row_parse: "parseCSVUrls httpUrl (fileText onlyHeaderAndBadRow) = []"
  by (simp add: onlyHeaderAndBadRow_def parseCSVUrls_def csvParser_def parseLine_def
      parseCell_def writeRow_def setProperty_def objectValues_def isArrayIndex_def isDigit_def
      isHighSurrogate_def isLowSurrogate_def js_def httpUrl_def trim_def isSpace_def Let_def)

theorem empty_batch_accepted_witness:
  "PUT (\<lambda>i. okWeb) noon (Body (UrlArray [])) = (NextResponse 200 (ResultsBody []), []) \<and>
   parseCSVUrls httpUrl (fileText onlyHeaderAndBadRow) = [] \<and>
   endsWith (fileName onlyHeaderAndBadRow) (js ''.csv'') \<and>
   fileSize onlyHeaderAndBadRow \<le> 5 * 1024 * 1024 \<and>
   uploadPOST httpUrl (Form (Some onlyHeaderAndBadRow)) =
     NextResponse 400 (ErrorBody (js ''No valid URLs found in CSV file''))"
proof -
  have "endsWith (fileName onlyHeaderAndBadRow) (js ''.csv'')"
    by (simp add: onlyHeaderAndBadRow_def endsWith_def js_def suffix_def)
  moreover have "fileSize onlyHeaderAndBadRow \<le> 5 * 1024 * 1024"
    by (simp add: onlyHeaderAndBadRow_def)
  ultimately show ?thesis
    using bad_row_parse empty_batch_accepted [of "\<lambda>i. okWeb" noon httpUrl onlyHeaderAndBadRow]
    by simp
qed

section \<open>CSV export and import\<close>

text \<open>
  The passage through UTF-8 leaves every code unit that is not a surrogate where it is,
  so it goes through the cells, the rows and the lines of an exported document; what it
  gives for an exported document is the export of the rows with every cell made well
  formed.
\<close>

lemma toWellFormed_unpaired:
  "\<not> (isHighSurrogate c \<and> s \<noteq> [] \<and> isLowSurrogate (hd s)) \<Longrightarrow>
   toWellFormed (c # s) = (if isHighSurrogate c \<or> isLowSurrogate c then 65533 else c) # toWellFormed s"
  by (cases s) auto

lemma toWellFormed_Cons:
  "\<not> isHighSurrogate c \<Longrightarrow> \<not> isLowSurrogate c \<Longrightarrow> toWellFormed (c # s) = c # toWellFormed s"
  by (simp add: toWellFormed_unpaired)

lemma toWellFormed_append:
  "\<not> isHighSurrogate c \<Longrightarrow> \<not> isLowSurrogate c \<Longrightarrow>
   toWellFormed (a @ c # b) = toWellFormed a @ c # toWellFormed b"
  by (induction a rule: toWellFormed.induct) (simp_all add: toWellFormed_Cons)

lemma toWellFormed_mem:
  "\<not> isHighSurrogate c \<Longrightarrow> \<not> isLowSurrogate c \<Longrightarrow> c \<noteq> 65533 \<Longrightarrow>
   (c \<in> set (toWellFormed s)) = (c \<in> set s)"
  by (induction s rule: toWellFormed.induct) auto

lemma toWellFormed_empty: "(toWellFormed s = []) = (s = [])"
  by (cases s rule: toWellFormed.cases) auto

lemma ascii_no_surrogate:
  "\<not> isHighSurrogate 10" "\<not> isLowSurrogate 10" "\<not> isHighSurrogate 34" "\<not> isLowSurrogate 34"
  "\<not> isHighSurrogate 44" "\<not> isLowSurrogate 44"
  by (simp_all add: isHighSurrogate_def isLowSurrogate_def)

lemma toWellFormed_quotes:
  "toWellFormed (concat (map (\<lambda>c. if c = 34 then [34, 34] else [c]) v)) =
   concat (map (\<lambda>c. if c = 34 then [34, 34] else [c]) (toWellFormed v))"
proof (induction v rule: toWellFormed.induct)
  case 1
  then show ?case by simp
next
  case (2 c)
  then show ?case by (simp add: isHighSurrogate_def isLowSurrogate_def)
next
  case (3 c d cs)
  let ?q = "\<lambda>s. concat (map (\<lambda>c. if c = 34 then [34, 34] else [c]) s)"
  show ?case
  proof (cases "isHighSurrogate c \<and> isLowSurrogate d")
    case True
    then have "c \<noteq> 34" "d \<noteq> 34"
      by (auto simp: isHighSurrogate_def isLowSurrogate_def)
    with True 3(1) show ?thesis by simp
  next
    case False
    have ih: "toWellFormed (?q (d # cs)) = ?q (toWellFormed (d # cs))"
      using 3(2,3) False by blast
    have t: "toWellFormed (c # d # cs) =
        (if isHighSurrogate c \<or> isLowSurrogate c then 65533 else c) # toWellFormed (d # cs)"
      by (rule toWellFormed_unpaired) (use False in simp)
    show ?thesis
    proof (cases "c = 34")
      case True
      then have "toWellFormed (?q (c # d # cs)) = 34 # 34 # toWellFormed (?q (d # cs))"
        by (simp add: toWellFormed_Cons ascii_no_surrogate del: toWellFormed.simps)
      then show ?thesis
        unfolding ih t using True by (simp add: ascii_no_surrogate)
    next
      case c: False
      have h: "?q (d # cs) \<noteq> []" "hd (?q (d # cs)) = d \<or> hd (?q (d # cs)) = 34"
        by auto
      have "\<not> (isHighSurrogate c \<and> ?q (d # cs) \<noteq> [] \<and> isLowSurrogate (hd (?q (d # cs))))"
        using False h(2) by (auto simp: ascii_no_surrogate)
      then have "toWellFormed (c # ?q (d # cs)) =
          (if isHighSurrogate c \<or> isLowSurrogate c then 65533 else c) # toWellFormed (?q (d # cs))"
        by (rule toWellFormed_unpaired)
      then have "toWellFormed (?q (c # d # cs)) =
          (if isHighSurrogate c \<or> isLowSurrogate c then 65533 else c) # ?q (toWellFormed (d # cs))"
        unfolding ih using c by simp
      then show ?thesis
        unfolding t using c by simp
    qed
  qed
qed

lemma toWellFormed_escape: "toWellFormed (escapeCSVValue v) = escapeCSVValue (toWellFormed v)"
proof -
  have m: "(44 \<in> set (toWellFormed v)) = (44 \<in> set v)" "(34 \<in> set (toWellFormed v)) = (34 \<in> set v)"
    "(10 \<in> set (toWellFormed v)) = (10 \<in> set v)"
    by (simp_all add: toWellFormed_mem ascii_no_surrogate)
  have "toWellFormed (34 # concat (map (\<lambda>c. if c = 34 then [34, 34] else [c]) v) @ [34]) =
        34 # concat (map (\<lambda>c. if c = 34 then [34, 34] else [c]) (toWellFormed v)) @ [34]"
    by (simp add: toWellFormed_Cons toWellFormed_append toWellFormed_quotes ascii_no_surrogate
        del: toWellFormed.simps(2,3))
  then show ?thesis
    by (simp add: escapeCSVValue_def m del: toWellFormed.simps)
qed

lemma toWellFormed_join:
  "\<not> isHighSurrogate c \<Longrightarrow> \<not> isLowSurrogate c \<Longrightarrow>
   toWellFormed (join [c] xs) = join [c] (map toWellFormed xs)"
  by (induction xs rule: induct_list012) (simp_all add: toWellFormed_append)

lemma toWellFormed_headers: "map toWellFormed headers = headers"
  by (simp add: headers_def js_def isHighSurrogate_def isLowSurrogate_def)

lemma headers_escape: "map escapeCSVValue headers = headers"
  by (simp add: headers_def escapeCSVValue_def js_def)

lemma toWellFormed_export:
  "toWellFormed (createCSVFromResults results) =
     join [10] (join [44] headers #
                map (\<lambda>row. join [44] (map escapeCSVValue (map toWellFormed row)))
                    (concat (map resultRows results)))"
proof -
  have h: "toWellFormed (join [44] headers) = join [44] headers"
    by (simp add: toWellFormed_join ascii_no_surrogate toWellFormed_headers)
  have r: "toWellFormed (join [44] (map escapeCSVValue row)) =
           join [44] (map escapeCSVValue (map toWellFormed row))" for row
    by (simp add: toWellFormed_join ascii_no_surrogate toWellFormed_escape comp_def)
  show ?thesis
    by (simp add: createCSVFromResults_def Let_def toWellFormed_join ascii_no_surrogate h r
        headers_escape comp_def)
qed

text \<open>
  \<open>splitLines\<close> ends a line where the number of quotes before a line end is even: a quote
  that it takes as escaping the next one changes nothing, as two changes of \<open>quoted\<close>
  do.
\<close>

lemma splitLines_parity:
  "map snd (splitLines s atStart quoted False first newline consumed line) =
   splitAtUnquoted s quoted first newline line"
proof (induction s arbitrary: atStart quoted first newline consumed line rule: length_induct)
  case (1 s)
  show ?case
  proof (cases s)
    case Nil
    then show ?thesis by simp
  next
    case (Cons c cs)
    show ?thesis
    proof (cases "c = 34 \<and> \<not> atStart \<and> (\<exists>ds. cs = 34 # ds)")
      case True
      then obtain ds where ds: "cs = 34 # ds" by blast
      have "length ds < length s" using Cons ds by simp
      with 1 have "map snd (splitLines ds False quoted False first newline consumed (line @ [34, 34])) =
          splitAtUnquoted ds quoted first newline (line @ [34, 34])"
        by blast
      with True Cons ds show ?thesis by simp
    next
      case False
      have "length cs < length s" using Cons by simp
      with 1 have ih: "map snd (splitLines cs a q False f n b l) = splitAtUnquoted cs q f n l"
        for a q f n b l
        by blast
      have n: "((case cs of [] \<Rightarrow> None | d # ds \<Rightarrow> Some d) = Some 34) = (\<exists>ds. cs = 34 # ds)"
        by (cases cs) auto
      have d: "((case cs of [] \<Rightarrow> None | d # ds \<Rightarrow> Some d) \<noteq> Some 10) = (cs = [] \<or> hd cs \<noteq> 10)"
        by (cases cs) auto
      show ?thesis
        unfolding Cons using False by (auto simp: ih d n Let_def)
    qed
  qed
qed

text \<open>
  In an exported document no line ends inside a row: a cell without quote and line feed,
  the body of a quoted cell, an escaped cell and a row of escaped cells are passed with
  \<open>quoted\<close> as it was.
\<close>

lemma split_plain:
  "34 \<notin> set v \<Longrightarrow> 10 \<notin> set v \<Longrightarrow>
   splitAtUnquoted (v @ rest) False False 10 line = splitAtUnquoted rest False False 10 (line @ v)"
  by (induction v arbitrary: line) auto

lemma split_quoted_body:
  "splitAtUnquoted (concat (map (\<lambda>c. if c = 34 then [34, 34] else [c]) v) @ rest) True False 10 line =
   splitAtUnquoted rest True False 10 (line @ concat (map (\<lambda>c. if c = 34 then [34, 34] else [c]) v))"
  by (induction v arbitrary: line) auto

lemma split_cell:
  "splitAtUnquoted (escapeCSVValue v @ rest) False False 10 line =
   splitAtUnquoted rest False False 10 (line @ escapeCSVValue v)"
proof (cases "44 \<in> set v \<or> 34 \<in> set v \<or> 10 \<in> set v")
  case True
  then show ?thesis
    using split_quoted_body [of v "34 # rest" "line @ [34]"] by (simp add: escapeCSVValue_def)
next
  case False
  then show ?thesis
    by (simp add: escapeCSVValue_def split_plain)
qed

lemma split_row:
  "splitAtUnquoted (join [44] (map escapeCSVValue cells) @ rest) False False 10 line =
   splitAtUnquoted rest False False 10 (line @ join [44] (map escapeCSVValue cells))"
proof (induction cells arbitrary: line rule: induct_list012)
  case 1
  then show ?case by simp
next
  case (2 x)
  then show ?case by (simp add: split_cell)
next
  case (3 x y zs)
  have "splitAtUnquoted (escapeCSVValue x @ (44 # join [44] (map escapeCSVValue (y # zs)) @ rest))
          False False 10 line =
        splitAtUnquoted (44 # join [44] (map escapeCSVValue (y # zs)) @ rest) False False 10
          (line @ escapeCSVValue x)"
    by (rule split_cell)
  also have "\<dots> = splitAtUnquoted (join [44] (map escapeCSVValue (y # zs)) @ rest) False False 10
          ((line @ escapeCSVValue x) @ [44])"
    by simp
  also have "\<dots> = splitAtUnquoted rest False False 10
          (((line @ escapeCSVValue x) @ [44]) @ join [44] (map escapeCSVValue (y # zs)))"
    by (rule 3(2))
  finally show ?case by simp
qed

lemma split_rows:
  "\<forall>row\<in>set rows. join [44] (map escapeCSVValue row) \<noteq> [] \<Longrightarrow>
   splitAtUnquoted (join [10] (map (\<lambda>row. join [44] (map escapeCSVValue row)) rows)) False False 10 [] =
   map (\<lambda>row. join [44] (map escapeCSVValue row)) rows"
proof (induction rows rule: induct_list012)
  case 1
  then show ?case by simp
next
  case (2 row)
  then show ?case
    using split_row [of row "[]" "[]"] by simp
next
  case (3 row r2 rs)
  have "splitAtUnquoted (join [44] (map escapeCSVValue row) @
          (10 # join [10] (map (\<lambda>row. join [44] (map escapeCSVValue row)) (r2 # rs)))) False False 10 [] =
        splitAtUnquoted (10 # join [10] (map (\<lambda>row. join [44] (map escapeCSVValue row)) (r2 # rs)))
          False False 10 ([] @ join [44] (map escapeCSVValue row))"
    by (rule split_row)
  also have "\<dots> = join [44] (map escapeCSVValue row) #
        splitAtUnquoted (join [10] (map (\<lambda>row. join [44] (map escapeCSVValue row)) (r2 # rs)))
          False False 10 []"
    by simp
  also have "\<dots> = map (\<lambda>row. join [44] (map escapeCSVValue row)) (row # r2 # rs)"
    using 3 by simp
  finally show ?case by simp
qed

lemma split_header:
  "splitAtUnquoted (join [44] headers @ 10 # rest) False True 10 [] =
   join [44] headers # splitAtUnquoted rest False False 10 []"
  by (simp add: headers_def js_def)

lemma split_header_only:
  "splitAtUnquoted (join [44] headers) False True 10 [] = [join [44] headers]"
  by (simp add: headers_def js_def)

lemma resultRows_shape: "row \<in> set (resultRows r) \<Longrightarrow> \<exists>rest. row = url r # rest \<and> length row = 6"
  by (auto simp: resultRows_def split: option.splits if_splits)

lemma row_line:
  "length row = 6 \<Longrightarrow>
   \<exists>u c rest. row = u # c # rest \<and>
     join [44] (map escapeCSVValue row) =
       escapeCSVValue u @ 44 # join [44] (map escapeCSVValue (c # rest))"
  by (cases row; cases "tl row") auto

text \<open>
  The lines of an exported document are the header line, before which there is nothing,
  and one line for each row.
\<close>

lemma splitLines_consumed:
  "splitLines s atStart quoted escaped first newline consumed line = p # ps \<Longrightarrow> fst p = consumed"
  by (induction s arbitrary: atStart quoted escaped first newline line)
     (auto simp: Let_def split: if_splits)

lemma split_lines:
  "map snd (splitLines (toWellFormed (createCSVFromResults results)) True False False True 10 [] []) =
     join [44] headers #
     map (\<lambda>row. join [44] (map escapeCSVValue (map toWellFormed row)))
         (concat (map resultRows results))"
proof (cases "concat (map resultRows results)")
  case Nil
  show ?thesis
    unfolding toWellFormed_export splitLines_parity Nil by (simp add: split_header_only)
next
  case (Cons r rs)
  let ?R = "concat (map resultRows results)"
  let ?rows = "map (map toWellFormed) ?R"
  let ?f = "\<lambda>row. join [44] (map escapeCSVValue (map toWellFormed row))"
  let ?g = "\<lambda>row. join [44] (map escapeCSVValue row)"
  have e: "map ?f ?R = map ?g ?rows"
    by (simp add: comp_def)
  have n: "\<forall>row\<in>set ?rows. ?g row \<noteq> []"
  proof
    fix row assume "row \<in> set ?rows"
    then have "length row = 6"
      using resultRows_shape by auto
    from row_line [OF this] show "?g row \<noteq> []"
      by auto
  qed
  have "map ?f ?R \<noteq> []"
    using Cons by simp
  then have "join [10] (join [44] headers # map ?f ?R) = join [44] headers @ 10 # join [10] (map ?f ?R)"
    by (cases "map ?f ?R") simp_all
  then have "splitAtUnquoted (join [10] (join [44] headers # map ?f ?R)) False True 10 [] =
        splitAtUnquoted (join [44] headers @ 10 # join [10] (map ?g ?rows)) False True 10 []"
    by (simp only: e)
  also have "\<dots> = join [44] headers # splitAtUnquoted (join [10] (map ?g ?rows)) False False 10 []"
    by (rule split_header)
  also have "\<dots> = join [44] headers # map ?g ?rows"
    by (simp only: split_rows [OF n])
  also have "\<dots> = join [44] headers # map ?f ?R"
    by (simp only: e)
  finally show ?thesis
    unfolding toWellFormed_export splitLines_parity .
qed

lemma split_export:
  "\<exists>ps. splitLines (toWellFormed (createCSVFromResults results)) True False False True 10 [] [] =
          ([], join [44] headers) # ps \<and>
        map snd ps = map (\<lambda>row. join [44] (map escapeCSVValue (map toWellFormed row)))
                         (concat (map resultRows results))"
proof -
  let ?s = "splitLines (toWellFormed (createCSVFromResults results)) True False False True 10 [] []"
  from split_lines [of results] obtain p ps where s: "?s = p # ps"
    and p: "snd p = join [44] headers"
    and ps: "map snd ps = map (\<lambda>row. join [44] (map escapeCSVValue (map toWellFormed row)))
                         (concat (map resultRows results))"
    by (cases ?s) auto
  from splitLines_consumed [OF s] p have "p = ([], join [44] headers)"
    by (cases p) simp
  with s ps show ?thesis by blast
qed

text \<open>
  \<open>parseLine\<close> on the line of an exported row: the first cell, which a comma follows,
  is read back as the value that was escaped, whatever the other cells are.
\<close>

lemma unescapeCell_Cons: "c \<noteq> 34 \<Longrightarrow> unescapeCell (c # s) = c # unescapeCell s"
  by (cases s) simp_all

lemma unescapeCell_plain: "34 \<notin> set v \<Longrightarrow> unescapeCell v = v"
  by (induction v) (simp_all add: unescapeCell_Cons)

lemma unescapeCell_quotes:
  "unescapeCell (concat (map (\<lambda>c. if c = 34 then [34, 34] else [c]) v)) = v"
  by (induction v) (simp_all add: unescapeCell_Cons)

lemma parseCell_escape: "parseCell (escapeCSVValue v) = v"
proof (cases "44 \<in> set v \<or> 34 \<in> set v \<or> 10 \<in> set v")
  case True
  let ?q = "concat (map (\<lambda>c. if c = 34 then [34, 34] else [c]) v)"
  have "butlast (tl (34 # ?q @ [34])) = ?q"
    by (simp add: butlast_append)
  moreover have "last (34 # ?q @ [34]) = 34"
    by simp
  ultimately have "parseCell (34 # ?q @ [34]) = v"
    unfolding parseCell_def by (simp add: unescapeCell_quotes del: butlast.simps last.simps)
  with True show ?thesis
    by (simp add: escapeCSVValue_def)
next
  case False
  then have "v = [] \<or> hd v \<noteq> 34"
    by (cases v) auto
  with False show ?thesis
    by (auto simp: escapeCSVValue_def parseCell_def unescapeCell_plain)
qed

lemma cells_plain:
  "34 \<notin> set v \<Longrightarrow> 44 \<notin> set v \<Longrightarrow>
   lineCells (v @ rest) False cell cells = lineCells rest False (cell @ v) cells"
  by (induction v arbitrary: cell) (simp_all add: Let_def)

lemma cells_quoted_body:
  "lineCells (concat (map (\<lambda>c. if c = 34 then [34, 34] else [c]) v) @ 34 # 44 # rest) True cell cells =
   lineCells rest False []
     (cells @ [parseCell (cell @ concat (map (\<lambda>c. if c = 34 then [34, 34] else [c]) v) @ [34])])"
  by (induction v arbitrary: cell) (simp_all add: Let_def)

lemma cells_first:
  "lineCells (escapeCSVValue v @ 44 # rest) False [] cells = lineCells rest False [] (cells @ [v])"
proof (cases "44 \<in> set v \<or> 34 \<in> set v \<or> 10 \<in> set v")
  case True
  let ?q = "concat (map (\<lambda>c. if c = 34 then [34, 34] else [c]) v)"
  have "lineCells (34 # ?q @ 34 # 44 # rest) False [] cells =
        lineCells (?q @ 34 # 44 # rest) True [34] cells"
    by (simp add: Let_def)
  also have "\<dots> = lineCells rest False [] (cells @ [parseCell ([34] @ ?q @ [34])])"
    by (rule cells_quoted_body)
  finally have "lineCells (34 # ?q @ 34 # 44 # rest) False [] cells =
        lineCells rest False [] (cells @ [parseCell ([34] @ ?q @ [34])])" .
  moreover have "parseCell ([34] @ ?q @ [34]) = v"
    using parseCell_escape [of v] True by (simp add: escapeCSVValue_def)
  ultimately show ?thesis
    using True by (simp add: escapeCSVValue_def)
next
  case False
  then have e: "escapeCSVValue v = v"
    by (simp add: escapeCSVValue_def)
  have "lineCells (v @ 44 # rest) False [] cells = lineCells (44 # rest) False ([] @ v) cells"
    using False by (intro cells_plain) auto
  also have "\<dots> = lineCells rest False [] (cells @ [parseCell v])"
    by (simp add: Let_def)
  finally show ?thesis
    using parseCell_escape [of v] by (simp add: e)
qed

lemma cells_kept: "prefix cells (lineCells s isQuoted cell cells)"
proof (induction s arbitrary: isQuoted cell cells rule: length_induct)
  case (1 s)
  show ?case
  proof (cases s)
    case Nil
    then show ?thesis by simp
  next
    case (Cons c rest)
    have a: "prefix cs (lineCells rest q cl cs)" for q cl cs
      using 1 Cons by simp
    have b: "prefix cs (lineCells (tl rest) q cl cs)" for q cl cs
      using 1 Cons by simp
    have c: "prefix cells (lineCells rest q cl (cells @ [x]))" for q cl x
      using a [of "cells @ [x]" q cl] by (rule append_prefixD)
    show ?thesis
      unfolding Cons by (simp add: Let_def a b c)
  qed
qed

lemma kept_first:
  "\<exists>t. (if b @ e @ 44 # tail \<noteq> [] \<and> last (b @ e @ 44 # tail) = 13
         then butlast (b @ e @ 44 # tail) else b @ e @ 44 # tail) = b @ e @ 44 # t"
  for b e tail :: jsstring
proof (cases "tail = []")
  case True
  then show ?thesis by simp
next
  case False
  then have "butlast (b @ e @ 44 # tail) = b @ e @ 44 # butlast tail"
    by (simp add: butlast_append)
  then show ?thesis
    by (cases "last (b @ e @ 44 # tail) = 13") (simp_all del: last_append last.simps butlast.simps)
qed

lemma parseLine_first: "\<exists>others. parseLine consumed (escapeCSVValue u @ 44 # tail) = u # others"
proof -
  obtain t where t:
    "(if consumed @ escapeCSVValue u @ 44 # tail \<noteq> [] \<and> last (consumed @ escapeCSVValue u @ 44 # tail) = 13
      then butlast (consumed @ escapeCSVValue u @ 44 # tail) else consumed @ escapeCSVValue u @ 44 # tail) =
     consumed @ escapeCSVValue u @ 44 # t"
    using kept_first by blast
  have "prefix [u] (lineCells t False [] ([] @ [u]))"
    using cells_kept [of "[u]" t False "[]"] by simp
  then obtain more where m: "lineCells (escapeCSVValue u @ 44 # t) False [] [] = u # more"
    unfolding cells_first by (auto simp: prefix_def)
  have "parseLine consumed (escapeCSVValue u @ 44 # tail) =
        (if last (consumed @ escapeCSVValue u @ 44 # t) = 44 then (u # more) @ [[]] else u # more)"
    unfolding parseLine_def Let_def t using m by simp
  then show ?thesis by simp
qed

lemma parseLine_headers: "parseLine [] (join [44] headers) = headers"
  by (simp add: parseLine_def headers_def js_def Let_def parseCell_def)

text \<open>
  The row object under the exporter's headers: the first cell is assigned to \<open>URL\<close>, no
  later property is named \<open>URL\<close> or by an array index, so the first of the values is the
  first cell.
\<close>

lemma later_keys:
  assumes "1 \<le> i"
  shows "(if i < length headers then headers ! i else js ''_'' @ showNat i) \<noteq> js ''URL'' \<and>
         \<not> isArrayIndex (if i < length headers then headers ! i else js ''_'' @ showNat i)"
proof (cases "i < 6")
  case True
  with assms have "i = 1 \<or> i = 2 \<or> i = 3 \<or> i = 4 \<or> i = 5" by arith
  then show ?thesis
    by (auto simp: headers_def js_def isArrayIndex_def isDigit_def)
next
  case False
  then show ?thesis
    by (simp add: headers_def js_def isArrayIndex_def isDigit_def)
qed

lemma assign_keeps:
  "obj \<noteq> [] \<Longrightarrow> fst (hd obj) \<noteq> k \<Longrightarrow>
   assign obj k v \<noteq> [] \<and> hd (assign obj k v) = hd obj \<and>
   fst ` set (assign obj k v) \<subseteq> insert k (fst ` set obj)"
proof -
  have "p \<in> set (assign ps k v) \<Longrightarrow> fst p = k \<or> fst p \<in> fst ` set ps" for p ps
    by (induction ps) (auto split: if_splits)
  then have "fst ` set (assign obj k v) \<subseteq> insert k (fst ` set obj)"
    by blast
  moreover assume "obj \<noteq> []" "fst (hd obj) \<noteq> k"
  ultimately show ?thesis
    by (cases obj) auto
qed

lemma writeRow_invariant:
  assumes "\<forall>p\<in>set xs. 1 \<le> fst p"
    and "obj \<noteq> []" and "hd obj = (js ''URL'', u)" and "\<forall>p\<in>set obj. \<not> isArrayIndex (fst p)"
  shows "foldl (\<lambda>obj (index, cell).
              setProperty obj (if index < length headers then headers ! index else js ''_'' @ showNat index) cell)
           obj xs \<noteq> [] \<and>
         hd (foldl (\<lambda>obj (index, cell).
              setProperty obj (if index < length headers then headers ! index else js ''_'' @ showNat index) cell)
           obj xs) = (js ''URL'', u) \<and>
         (\<forall>p\<in>set (foldl (\<lambda>obj (index, cell).
              setProperty obj (if index < length headers then headers ! index else js ''_'' @ showNat index) cell)
           obj xs). \<not> isArrayIndex (fst p))"
  using assms
proof (induction xs arbitrary: obj)
  case Nil
  then show ?case by simp
next
  case (Cons x xs)
  obtain i c where x: "x = (i, c)" by (cases x)
  let ?k = "if i < length headers then headers ! i else js ''_'' @ showNat i"
  let ?o = "setProperty obj ?k c"
  have i: "1 \<le> i" using Cons.prems(1) x by simp
  note k = later_keys [OF i]
  have "fst (hd obj) = js ''URL''"
    using Cons.prems(3) by simp
  with k have f: "fst (hd obj) \<noteq> ?k"
    by metis
  note a = assign_keeps [OF Cons.prems(2) f, of c]
  have o: "?o \<noteq> [] \<and> hd ?o = (js ''URL'', u) \<and> (\<forall>p\<in>set ?o. \<not> isArrayIndex (fst p))"
  proof (cases "?k = js ''__proto__''")
    case True
    then show ?thesis
      using Cons.prems by (simp add: setProperty_def)
  next
    case False
    then have s: "?o = assign obj ?k c"
      by (simp add: setProperty_def)
    have "\<forall>p\<in>set (assign obj ?k c). \<not> isArrayIndex (fst p)"
    proof
      fix p assume "p \<in> set (assign obj ?k c)"
      then have "fst p \<in> insert ?k (fst ` set obj)"
        using a by blast
      then show "\<not> isArrayIndex (fst p)"
        using k Cons.prems(4) by auto
    qed
    then show ?thesis
      unfolding s using a Cons.prems(3) by simp
  qed
  have "\<forall>p\<in>set xs. 1 \<le> fst p" using Cons.prems(1) by simp
  from Cons.IH [OF this, of ?o] o show ?case
    by (simp add: x)
qed

lemma first_value: "\<exists>vs. objectValues (writeRow headers (u # others)) = u # vs"
proof -
  let ?step = "\<lambda>obj (index, cell).
      setProperty obj (if index < length headers then headers ! index else js ''_'' @ showNat index) cell"
  let ?xs = "zip [1 ..< Suc (length others)] others"
  let ?r = "foldl ?step [(js ''URL'', u)] ?xs"
  have z: "zip [0 ..< length (u # others)] (u # others) = (0, u) # ?xs"
    by (simp add: upt_conv_Cons del: upt_Suc)
  have s: "?step [] (0, u) = [(js ''URL'', u)]"
    by (simp add: setProperty_def headers_def js_def)
  have w: "writeRow headers (u # others) = ?r"
    unfolding writeRow_def z foldl_Cons s ..
  have "\<forall>p\<in>set ?xs. 1 \<le> fst p"
    by (auto dest: set_zip_leftD)
  moreover have "\<not> isArrayIndex (js ''URL'')"
    by (simp add: isArrayIndex_def js_def isDigit_def)
  ultimately have r: "?r \<noteq> [] \<and> hd ?r = (js ''URL'', u) \<and> (\<forall>p\<in>set ?r. \<not> isArrayIndex (fst p))"
    by (intro writeRow_invariant) simp_all
  then have "filter (\<lambda>p. isArrayIndex (fst p)) ?r = []" "filter (\<lambda>p. \<not> isArrayIndex (fst p)) ?r = ?r"
    by (simp_all add: filter_empty_conv filter_id_conv)
  then have "objectValues ?r = map snd ?r"
    by (simp add: objectValues_def)
  moreover from r obtain ps where "?r = (js ''URL'', u) # ps"
    by (cases ?r) auto
  ultimately show ?thesis
    unfolding w by simp
qed

lemma length_resultRows:
  "length (resultRows r) =
     (case (if success r then data r else None) of
        Some d \<Rightarrow> if contacts d = [] then 1 else length (contacts d)
      | None \<Rightarrow> 1)"
  by (auto simp: resultRows_def split: option.splits)

lemma resultRows_nonempty: "0 < length (resultRows r)"
  by (auto simp: length_resultRows split: option.splits)

text \<open>
  What \<open>parseCSVUrls\<close> gives on an exported document, for every list of results: the
  URL of each result as it comes out of the bytes and trimmed, when it is not empty and
  valid after trimming, once per row that the result was exported as.
\<close>

lemma row_url:
  assumes "row \<in> set (resultRows r)"
  shows "(case objectValues (writeRow headers
               (parseLine consumed (join [44] (map escapeCSVValue (map toWellFormed row))))) of
            [] \<Rightarrow> []
          | firstColumnValue # others \<Rightarrow>
              if firstColumnValue \<noteq> [] \<and> valid (trim firstColumnValue)
              then [trim firstColumnValue] else []) =
         (if url r \<noteq> [] \<and> valid (trim (toWellFormed (url r)))
          then [trim (toWellFormed (url r))] else [])"
proof -
  from resultRows_shape [OF assms] obtain rest where
    row: "map toWellFormed row = toWellFormed (url r) # map toWellFormed rest"
    and "length (map toWellFormed row) = 6"
    by auto
  from row_line [OF this(2)] row obtain c rest' where
    "join [44] (map escapeCSVValue (map toWellFormed row)) =
       escapeCSVValue (toWellFormed (url r)) @ 44 # join [44] (map escapeCSVValue (c # rest'))"
    by auto
  then obtain others where
    "parseLine consumed (join [44] (map escapeCSVValue (map toWellFormed row))) =
       toWellFormed (url r) # others"
    using parseLine_first by metis
  then obtain vs where
    "objectValues (writeRow headers
       (parseLine consumed (join [44] (map escapeCSVValue (map toWellFormed row))))) =
     toWellFormed (url r) # vs"
    using first_value by metis
  then show ?thesis
    by (simp add: toWellFormed_empty)
qed

lemma parse_export:
  "parseCSVUrls valid (createCSVFromResults results) =
     concat (map (\<lambda>r. if url r \<noteq> [] \<and> valid (trim (toWellFormed (url r)))
                       then replicate (length (resultRows r)) (trim (toWellFormed (url r))) else [])
                 results)"
proof -
  let ?sel = "\<lambda>row. case objectValues row of
                          [] \<Rightarrow> []
                        | firstColumnValue # others \<Rightarrow>
                            if firstColumnValue \<noteq> [] \<and> valid (trim firstColumnValue)
                            then [trim firstColumnValue] else []"
  let ?f = "\<lambda>row. join [44] (map escapeCSVValue (map toWellFormed row))"
  let ?line = "\<lambda>consumed line. ?sel (writeRow headers (parseLine consumed line))"
  let ?one = "\<lambda>r. if url r \<noteq> [] \<and> valid (trim (toWellFormed (url r)))
                  then [trim (toWellFormed (url r))] else []"
  let ?R = "concat (map resultRows results)"
  obtain ps where s: "splitLines (toWellFormed (createCSVFromResults results)) True False False True 10 [] [] =
          ([], join [44] headers) # ps"
    and ps: "map snd ps = map ?f ?R"
    using split_export by blast
  have i: "?line consumed (?f row) = ?line [] (?f row)" if "row \<in> set ?R" for row consumed
  proof -
    from that obtain r where "row \<in> set (resultRows r)" by auto
    from row_url [OF this, of valid consumed] row_url [OF this, of valid "[]"] show ?thesis
      by simp
  qed
  have "csvParser (createCSVFromResults results) =
        map (\<lambda>p. writeRow headers (parseLine (fst p) (snd p))) ps"
    by (simp add: csvParser_def s parseLine_headers case_prod_beta)
  then have "parseCSVUrls valid (createCSVFromResults results) =
        concat (map (\<lambda>p. ?line (fst p) (snd p)) ps)"
    by (simp add: parseCSVUrls_def comp_def)
  also have "map (\<lambda>p. ?line (fst p) (snd p)) ps = map (\<lambda>p. ?line [] (snd p)) ps"
  proof (rule map_cong [OF refl])
    fix p assume "p \<in> set ps"
    then have "snd p \<in> set (map ?f ?R)"
      unfolding ps [symmetric] by simp
    then obtain row where "row \<in> set ?R" "snd p = ?f row"
      by auto
    with i [of row "fst p"] show "?line (fst p) (snd p) = ?line [] (snd p)"
      by simp
  qed
  also have "\<dots> = map (?line []) (map snd ps)"
    by simp
  also have "\<dots> = map (\<lambda>row. ?line [] (?f row)) ?R"
    unfolding ps by simp
  also have "concat \<dots> = concat (map (\<lambda>r. concat (map (\<lambda>row. ?line [] (?f row)) (resultRows r))) results)"
    by (induction results) simp_all
  also have "\<dots> = concat (map (\<lambda>r. concat (map (\<lambda>row. ?one r) (resultRows r))) results)"
  proof -
    have m: "map (\<lambda>row. ?line [] (?f row)) (resultRows r) = map (\<lambda>row. ?one r) (resultRows r)" for r
      by (rule map_cong [OF refl]) (rule row_url)
    show ?thesis unfolding m ..
  qed
  also have "\<dots> = concat (map (\<lambda>r. if url r \<noteq> [] \<and> valid (trim (toWellFormed (url r)))
                       then replicate (length (resultRows r)) (trim (toWellFormed (url r))) else [])
                 results)"
  proof -
    have c: "concat (map (\<lambda>row. ?one r) rows) =
          (if url r \<noteq> [] \<and> valid (trim (toWellFormed (url r)))
           then replicate (length rows) (trim (toWellFormed (url r))) else [])" for r and rows :: "jsstring list list"
      by (induction rows) simp_all
    show ?thesis unfolding c ..
  qed
  finally show ?thesis .
qed

lemma remdups_replicate_append:
  "0 < n \<Longrightarrow> remdups (replicate n u @ xs) = remdups (u # xs)"
proof (induction n)
  case 0
  then show ?case by simp
next
  case (Suc n)
  show ?case
  proof (cases n)
    case 0
    then show ?thesis by simp
  next
    case (Suc k)
    then have "u \<in> set (replicate n u @ xs)" by simp
    then have "remdups (replicate (Suc n) u @ xs) = remdups (replicate n u @ xs)" by simp
    with Suc.IH Suc show ?thesis by simp
  qed
qed

lemma remdups_blocks:
  "\<forall>r\<in>set rs. 0 < n r \<Longrightarrow>
   remdups (concat (map (\<lambda>r. replicate (n r) (f r)) rs)) = remdups (map f rs) \<and>
   set (concat (map (\<lambda>r. replicate (n r) (f r)) rs)) = set (map f rs)"
proof (induction rs)
  case Nil
  then show ?case by simp
next
  case (Cons r rs)
  then have ih: "remdups (concat (map (\<lambda>r. replicate (n r) (f r)) rs)) = remdups (map f rs)"
    "set (concat (map (\<lambda>r. replicate (n r) (f r)) rs)) = set (map f rs)" and n: "0 < n r"
    by simp_all
  have "remdups (concat (map (\<lambda>r. replicate (n r) (f r)) (r # rs))) =
        remdups (f r # concat (map (\<lambda>r. replicate (n r) (f r)) rs))"
    by (simp only: list.map concat.simps remdups_replicate_append [OF n])
  also have "\<dots> = remdups (map f (r # rs))"
    using ih by simp
  finally have a: "remdups (concat (map (\<lambda>r. replicate (n r) (f r)) (r # rs))) = remdups (map f (r # rs))" .
  have b: "set (concat (map (\<lambda>r. replicate (n r) (f r)) (r # rs))) = set (map f (r # rs))"
    using ih(2) n by auto
  from a b show ?case by blast
qed

text \<open>
  C9, as the code has it. When every URL of the results is a non-empty string without
  white space at its ends, in which no surrogate stands without its partner, and which
  the URL parser accepts, the URL column of the exported document parses back to the
  URLs of the results in their order, each URL once per exported row (a success with
  grouped contacts has one row per contact, every other result one row). So the URLs
  without repetitions are the original ones in the original order, and the list is the
  original list when no result has more than one grouped contact.
\<close>

theorem csv_roundtrip:
  assumes "\<forall>r\<in>set results. url r \<noteq> [] \<and> trim (url r) = url r \<and> valid (url r) \<and>
                            toWellFormed (url r) = url r"
  shows "parseCSVUrls valid (createCSVFromResults results) =
           concat (map (\<lambda>r. replicate (length (resultRows r)) (url r)) results) \<and>
         remdups (parseCSVUrls valid (createCSVFromResults results)) = remdups (map url results) \<and>
         ((\<forall>r\<in>set results. \<forall>d. success r \<and> data r = Some d \<longrightarrow> length (contacts d) \<le> 1) \<longrightarrow>
            parseCSVUrls valid (createCSVFromResults results) = map url results)"
proof -
  have p: "parseCSVUrls valid (createCSVFromResults results) =
           concat (map (\<lambda>r. replicate (length (resultRows r)) (url r)) results)"
    unfolding parse_export using assms by (intro arg_cong [where f = concat] map_cong) auto
  have q: "remdups (concat (map (\<lambda>r. replicate (length (resultRows r)) (url r)) results)) =
           remdups (map url results)"
    using remdups_blocks [of results "\<lambda>r. length (resultRows r)" url] resultRows_nonempty by blast
  have r: "concat (map (\<lambda>r. replicate (length (resultRows r)) (url r)) results) = map url results"
    if h: "\<forall>r\<in>set results. \<forall>d. success r \<and> data r = Some d \<longrightarrow> length (contacts d) \<le> 1"
  proof -
    have "length (resultRows r) = 1" if "r \<in> set results" for r
      using h that by (auto simp: length_resultRows le_Suc_eq split: option.splits)
    then have m: "map (\<lambda>r. replicate (length (resultRows r)) (url r)) results =
        map (\<lambda>r. [url r]) results"
      by (intro map_cong) auto
    have "concat (map (\<lambda>r. [url r]) results) = map url results"
      by (induction results) simp_all
    then show ?thesis unfolding m .
  qed
  show ?thesis
    unfolding p using q r by simp
qed

text \<open>
  C9 as the claim words it fails: the failure exported for the invalid URL \<open>example.fi\<close>
  does not come back, because \<open>parseCSVUrls\<close> keeps valid URLs only; the URL of a
  success with two grouped contacts comes back twice; and a URL that ends with a
  surrogate without its partner comes back with the replacement character in its place.
\<close>

theorem csv_roundtrip_counterexample:
  "parseCSVUrls httpUrl (createCSVFromResults [failedResult]) = [] \<and>
   map url [failedResult] = [js ''example.fi''] \<and>
   parseCSVUrls httpUrl (createCSVFromResults [twoContacts]) =
     [js ''https://example.fi'', js ''https://example.fi''] \<and>
   map url [twoContacts] = [js ''https://example.fi''] \<and>
   parseCSVUrls httpUrl (createCSVFromResults [unpaired]) = [js ''https://example.fi/'' @ [65533]] \<and>
   map url [unpaired] = [js ''https://example.fi/'' @ [55296]]"
proof -
  have a: "\<not> httpUrl (trim (toWellFormed (js ''example.fi'')))"
    by (simp add: httpUrl_def trim_def isSpace_def js_def isHighSurrogate_def isLowSurrogate_def)
  have b: "httpUrl (trim (toWellFormed (js ''https://example.fi'')))"
    "trim (toWellFormed (js ''https://example.fi'')) = js ''https://example.fi''"
    by (simp_all add: httpUrl_def trim_def isSpace_def js_def isHighSurrogate_def isLowSurrogate_def)
  have c: "length (resultRows twoContacts) = 2" "length (resultRows unpaired) = 1"
    by (simp_all add: length_resultRows twoContacts_def unpaired_def)
  have d: "js ''https://example.fi'' \<noteq> []" "js ''https://example.fi/'' @ [55296] \<noteq> []"
    by (simp_all add: js_def)
  have e: "httpUrl (trim (toWellFormed (js ''https://example.fi/'' @ [55296])))"
    "trim (toWellFormed (js ''https://example.fi/'' @ [55296])) = js ''https://example.fi/'' @ [65533]"
    by (simp_all add: httpUrl_def trim_def isSpace_def js_def isHighSurrogate_def isLowSurrogate_def)
  have "parseCSVUrls httpUrl (createCSVFromResults [failedResult]) = []"
    using a by (simp add: parse_export failedResult_def)
  moreover have "parseCSVUrls httpUrl (createCSVFromResults [twoContacts]) =
     [js ''https://example.fi'', js ''https://example.fi'']"
    unfolding parse_export using b c d by (simp add: twoContacts_def numeral_2_eq_2)
  moreover have "parseCSVUrls httpUrl (createCSVFromResults [unpaired]) =
     [js ''https://example.fi/'' @ [65533]]"
    unfolding parse_export using e c d by (simp add: unpaired_def)
  ultimately show ?thesis
    by (simp add: failedResult_def twoContacts_def unpaired_def)
qed

theorem csv_roundtrip_witness:
  "url oneContact \<noteq> [] \<and> trim (url oneContact) = url oneContact \<and> httpUrl (url oneContact) \<and>
   toWellFormed (url oneContact) = url oneContact \<and>
   url timedOut \<noteq> [] \<and> trim (url timedOut) = url timedOut \<and> httpUrl (url timedOut) \<and>
   toWellFormed (url timedOut) = url timedOut \<and>
   parseCSVUrls httpUrl (createCSVFromResults [oneContact, timedOut]) =
     [js ''https://example.fi'', js ''https://down.example.fi'']"
proof -
  have a: "url oneContact \<noteq> [] \<and> trim (url oneContact) = url oneContact \<and> httpUrl (url oneContact) \<and>
           toWellFormed (url oneContact) = url oneContact"
    "url timedOut \<noteq> [] \<and> trim (url timedOut) = url timedOut \<and> httpUrl (url timedOut) \<and>
     toWellFormed (url timedOut) = url timedOut"
    by (simp_all add: oneContact_def timedOut_def httpUrl_def trim_def isSpace_def js_def
        isHighSurrogate_def isLowSurrogate_def)
  then have h: "\<forall>r\<in>set [oneContact, timedOut]. url r \<noteq> [] \<and> trim (url r) = url r \<and> httpUrl (url r) \<and>
      toWellFormed (url r) = url r"
    by simp
  have one: "\<forall>r\<in>set [oneContact, timedOut]. \<forall>d. success r \<and> data r = Some d \<longrightarrow> length (contacts d) \<le> 1"
    by (simp add: oneContact_def timedOut_def)
  from csv_roundtrip [OF h] one
  have "parseCSVUrls httpUrl (createCSVFromResults [oneContact, timedOut]) = map url [oneContact, timedOut]"
    by blast
  with a show ?thesis
    by (simp add: oneContact_def timedOut_def)
qed

end
